theory Spec2Isabelle
  imports Main "HOL-Library.Sublist"
begin

section \<open>Python strings\<close>

text \<open>
  Text is modelled as HOL strings read as ASCII. On such text
  \<^verbatim>\<open>unicodedata.normalize("NFKC", s)\<close> returns \<open>s\<close>, \<^verbatim>\<open>str.lower\<close> and \<^verbatim>\<open>str.upper\<close>
  change the 26 letters only, and \<^verbatim>\<open>str.isspace\<close>, \<^verbatim>\<open>\s\<close> and \<^verbatim>\<open>str.split()\<close> agree on
  the ten ASCII whitespace characters.
\<close>

definition isspace :: "char \<Rightarrow> bool" where
  "isspace c \<longleftrightarrow> c \<in> set [CHR 0x09, CHR 0x0A, CHR 0x0B, CHR 0x0C, CHR 0x0D,
                         CHR 0x1C, CHR 0x1D, CHR 0x1E, CHR 0x1F, CHR 0x20]"

definition lower_char :: "char \<Rightarrow> char" where
  "lower_char c = (let n = (of_char c :: nat) in if 65 \<le> n \<and> n \<le> 90 then char_of (n + 32) else c)"

definition upper_char :: "char \<Rightarrow> char" where
  "upper_char c = (let n = (of_char c :: nat) in if 97 \<le> n \<and> n \<le> 122 then char_of (n - 32) else c)"

definition lower :: "string \<Rightarrow> string" where
  "lower s = map lower_char s"

definition upper :: "string \<Rightarrow> string" where
  "upper s = map upper_char s"

definition startswith :: "string \<Rightarrow> string \<Rightarrow> bool" where
  \<comment> \<open>\<^verbatim>\<open>s.startswith(p)\<close>\<close>
  "startswith s p \<longleftrightarrow> prefix p s"

fun str_find :: "string \<Rightarrow> string \<Rightarrow> nat option" where
  \<comment> \<open>\<^verbatim>\<open>s.find(sub)\<close>: the lowest index where \<open>sub\<close> starts, \<open>None\<close> for Python's \<open>-1\<close>\<close>
  "str_find [] sub = (if sub = [] then Some 0 else None)"
| "str_find (c # cs) sub =
     (if prefix sub (c # cs) then Some 0 else map_option Suc (str_find cs sub))"

definition str_in :: "string \<Rightarrow> string \<Rightarrow> bool" where
  \<comment> \<open>\<^verbatim>\<open>sub in s\<close>\<close>
  "str_in sub s \<longleftrightarrow> str_find s sub \<noteq> None"

definition strip :: "string \<Rightarrow> string" where
  \<comment> \<open>\<^verbatim>\<open>s.strip()\<close>\<close>
  "strip s = rev (dropWhile isspace (rev (dropWhile isspace s)))"

function collapse_ws :: "string \<Rightarrow> string" where
  \<comment> \<open>\<^verbatim>\<open>re.sub(r'\s+', ' ', s)\<close>: every maximal run of whitespace becomes one space\<close>
  "collapse_ws [] = []"
| "collapse_ws (c # cs) =
     (if isspace c then CHR '' '' # collapse_ws (dropWhile isspace cs)
      else c # collapse_ws cs)"
  by pat_completeness auto
termination
  by (relation "measure length") (auto simp: less_Suc_eq_le length_dropWhile_le)

definition nfkc :: "string \<Rightarrow> string" where
  \<comment> \<open>\<^verbatim>\<open>unicodedata.normalize("NFKC", s)\<close> on ASCII text\<close>
  "nfkc s = s"

definition normalize_text :: "string \<Rightarrow> string" where
  \<comment> \<open>\<^verbatim>\<open>_normalize_text\<close>\<close>
  "normalize_text s = strip (collapse_ws (nfkc s))"

function split :: "string \<Rightarrow> string list" where
  \<comment> \<open>\<^verbatim>\<open>s.split()\<close>: the maximal runs of non-whitespace characters\<close>
  "split [] = []"
| "split (c # cs) =
     (if isspace c then split cs
      else (c # takeWhile (\<lambda>x. \<not> isspace x) cs) # split (dropWhile (\<lambda>x. \<not> isspace x) cs))"
  by pat_completeness auto
termination
  by (relation "measure length") (auto simp: less_Suc_eq_le length_dropWhile_le)

section \<open>Documents\<close>

text \<open>
  A run carries text and character formatting; \<open>None\<close> in a formatting field means that
  the run's properties have no such element. A paragraph has a nullable style name and
  its runs. The body of a document is the sequence of its block-level elements, paragraphs
  and tables; a table is rows of cells of paragraphs.
\<close>

record run =
  run_text :: string
  bold :: "bool option"
  italic :: "bool option"
  caps :: "bool option"
  sz :: "nat option"

record para =
  style :: "string option"
  runs :: "run list"

definition para_text :: "para \<Rightarrow> string" where
  \<comment> \<open>\<^verbatim>\<open>para.text\<close>: the run texts concatenated\<close>
  "para_text p = concat (map run_text (runs p))"

definition style_name :: "para \<Rightarrow> string" where
  \<comment> \<open>\<^verbatim>\<open>para.style.name if para.style else "Normal"\<close>\<close>
  "style_name p = (case style p of None \<Rightarrow> ''Normal'' | Some s \<Rightarrow> s)"

type_synonym table = "para list list list"

datatype element = Para para | Tbl table

record document =
  body :: "element list"
  styles :: "string list"

fun paragraphs :: "element list \<Rightarrow> para list" where
  \<comment> \<open>\<^verbatim>\<open>doc.paragraphs\<close>: the paragraphs that are children of the body, in order\<close>
  "paragraphs [] = []"
| "paragraphs (Para p # es) = p # paragraphs es"
| "paragraphs (Tbl t # es) = paragraphs es"

fun tables :: "element list \<Rightarrow> table list" where
  \<comment> \<open>\<^verbatim>\<open>doc.tables\<close>\<close>
  "tables [] = []"
| "tables (Para p # es) = tables es"
| "tables (Tbl t # es) = t # tables es"

subsection \<open>Faults and the file store\<close>

datatype fault = PackageNotFoundError | KeyError | IndexError

datatype stored = Malformed | Docx document

type_synonym path = string
type_synonym files = "path \<Rightarrow> stored option"

definition exists :: "files \<Rightarrow> path \<Rightarrow> bool" where
  \<comment> \<open>\<^verbatim>\<open>os.path.exists(doc_path)\<close>\<close>
  "exists fs doc_path \<longleftrightarrow> fs doc_path \<noteq> None"

definition Document :: "files \<Rightarrow> path \<Rightarrow> fault + document" where
  \<comment> \<open>\<^verbatim>\<open>Document(doc_path)\<close> raises on a file that is not a Word package\<close>
  "Document fs doc_path =
     (case fs doc_path of Some (Docx d) \<Rightarrow> Inr d | _ \<Rightarrow> Inl PackageNotFoundError)"

definition save :: "files \<Rightarrow> path \<Rightarrow> document \<Rightarrow> files" where
  \<comment> \<open>\<^verbatim>\<open>doc.save(doc_path)\<close>\<close>
  "save fs doc_path d = fs(doc_path \<mapsto> Docx d)"

subsection \<open>Removing a paragraph\<close>

fun remove_para :: "nat \<Rightarrow> element list \<Rightarrow> element list" where
  \<comment> \<open>unlink the paragraph that is number \<open>i\<close> of \<^verbatim>\<open>doc.paragraphs\<close> from the body\<close>
  "remove_para i [] = []"
| "remove_para i (Tbl t # es) = Tbl t # remove_para i es"
| "remove_para 0 (Para p # es) = es"
| "remove_para (Suc i) (Para p # es) = Para p # remove_para i es"

definition remove_paragraph :: "element list \<Rightarrow> int \<Rightarrow> fault + element list" where
  \<comment> \<open>\<^verbatim>\<open>p = doc.paragraphs[i]._p; p.getparent().remove(p)\<close>, with Python's list indexing\<close>
  "remove_paragraph es i =
     (if 0 \<le> i \<and> i < int (length (paragraphs es)) then Inr (remove_para (nat i) es)
      else if i < 0 \<and> - int (length (paragraphs es)) \<le> i
      then Inr (remove_para (nat (int (length (paragraphs es)) + i)) es)
      else Inl IndexError)"

fun remove_descending :: "int list \<Rightarrow> element list \<Rightarrow> fault + element list" where
  \<comment> \<open>\<^verbatim>\<open>for i in range(end_index, start_index - 1, -1)\<close>: remove paragraph \<open>i\<close>\<close>
  "remove_descending [] es = Inr es"
| "remove_descending (i # is) es =
     (case remove_paragraph es i of Inl e \<Rightarrow> Inl e | Inr es' \<Rightarrow> remove_descending is es')"

section \<open>Deleting a paragraph range\<close>

datatype delete_message =
    Delete_not_exist path
    \<comment> \<open>\<^verbatim>\<open>Error: Document ... does not exist\<close>\<close>
  | Delete_start_negative int
    \<comment> \<open>\<^verbatim>\<open>Error: start_index (...) must be >= 0\<close>\<close>
  | Delete_end_exceeds int nat
    \<comment> \<open>\<^verbatim>\<open>Error: end_index (...) exceeds paragraph count (...)\<close>\<close>
  | Delete_start_gt_end int int
    \<comment> \<open>\<^verbatim>\<open>Error: start_index (...) > end_index (...)\<close>\<close>
  | Delete_failed fault
    \<comment> \<open>\<^verbatim>\<open>Error: Failed to delete paragraph range: ...\<close>\<close>
  | Deleted int int int
    \<comment> \<open>\<^verbatim>\<open>Successfully deleted {count} paragraph(s) (indices {start}-{end}).\<close>\<close>

fun delete_is_error :: "delete_message \<Rightarrow> bool" where
  "delete_is_error (Deleted c s e) = False"
| "delete_is_error _ = True"

definition delete_paragraph_range :: "files \<Rightarrow> path \<Rightarrow> int \<Rightarrow> int \<Rightarrow> delete_message \<times> files" where
  "delete_paragraph_range fs doc_path start_index end_index =
     (if \<not> exists fs doc_path then (Delete_not_exist doc_path, fs)
      else case Document fs doc_path of
        Inl e \<Rightarrow> (Delete_failed e, fs)
      | Inr doc \<Rightarrow>
          let total = length (paragraphs (body doc)) in
          if start_index < 0 then (Delete_start_negative start_index, fs)
          else if end_index \<ge> int total then (Delete_end_exceeds end_index total, fs)
          else if start_index > end_index then (Delete_start_gt_end start_index end_index, fs)
          else (case remove_descending (rev [start_index..end_index]) (body doc) of
            Inl e \<Rightarrow> (Delete_failed e, fs)
          | Inr es \<Rightarrow>
              (Deleted (end_index - start_index + 1) start_index end_index,
               save fs doc_path (doc\<lparr>body := es\<rparr>))))"

section \<open>Replacing a paragraph range\<close>

definition py_index :: "'a list \<Rightarrow> int \<Rightarrow> fault + 'a" where
  \<comment> \<open>\<^verbatim>\<open>xs[i]\<close>: a negative index counts from the end, an index out of range raises\<close>
  "py_index xs i =
     (if 0 \<le> i \<and> i < int (length xs) then Inr (xs ! nat i)
      else if i < 0 \<and> - int (length xs) \<le> i then Inr (xs ! nat (int (length xs) + i))
      else Inl IndexError)"

definition truthy :: "string option \<Rightarrow> bool" where
  \<comment> \<open>the truth value of an optional string argument: \<^verbatim>\<open>None\<close> and \<^verbatim>\<open>""\<close> are false\<close>
  "truthy s \<longleftrightarrow> (case s of None \<Rightarrow> False | Some t \<Rightarrow> t \<noteq> [])"

definition plain_run :: "string \<Rightarrow> run" where
  "plain_run t = \<lparr>run_text = t, bold = None, italic = None, caps = None, sz = None\<rparr>"

definition new_paragraph :: "string \<Rightarrow> string \<Rightarrow> para" where
  \<comment> \<open>the paragraph that \<^verbatim>\<open>add_paragraph\<close> makes: it gets a run only for a non-empty text\<close>
  "new_paragraph style_to_use t =
     \<lparr>style = Some style_to_use, runs = (if t = [] then [] else [plain_run t])\<rparr>"

definition add_paragraph :: "document \<Rightarrow> string \<Rightarrow> string \<Rightarrow> fault + para" where
  \<comment> \<open>\<^verbatim>\<open>doc.add_paragraph(text, style=style_to_use)\<close>: the style is looked up by name in
      the document's styles, and the lookup raises \<^verbatim>\<open>KeyError\<close> for an unknown name\<close>
  "add_paragraph doc t style_to_use =
     (if style_to_use \<in> set (styles doc) then Inr (new_paragraph style_to_use t) else Inl KeyError)"

text \<open>
  The element after which the next new paragraph goes: the start of the body
  (\<^verbatim>\<open>prev_element is None\<close>), the paragraph that is number \<open>i\<close> of \<^verbatim>\<open>doc.paragraphs\<close>, or a
  paragraph that has been unlinked from the body.
\<close>

datatype anchor = Body_start | After nat | Unlinked

fun insert_after_para :: "nat \<Rightarrow> para \<Rightarrow> element list \<Rightarrow> element list" where
  \<comment> \<open>\<^verbatim>\<open>anchor.addnext(new)\<close> for the anchor that is paragraph number \<open>i\<close>\<close>
  "insert_after_para i q [] = []"
| "insert_after_para i q (Tbl t # es) = Tbl t # insert_after_para i q es"
| "insert_after_para 0 q (Para p # es) = Para p # Para q # es"
| "insert_after_para (Suc i) q (Para p # es) = Para p # insert_after_para i q es"

fun insert_new_paragraphs ::
  "document \<Rightarrow> string \<Rightarrow> anchor \<Rightarrow> string list \<Rightarrow> element list \<Rightarrow> fault + element list" where
  \<comment> \<open>\<^verbatim>\<open>for text in new_paragraphs\<close>: \<^verbatim>\<open>add_paragraph\<close> appends the new paragraph to the body,
      and the loop moves it from there to its place after the previous element, which
      it becomes. Beside an unlinked element the new paragraph is outside the body.\<close>
  "insert_new_paragraphs doc style_to_use prev [] es = Inr es"
| "insert_new_paragraphs doc style_to_use prev (t # ts) es =
     (case add_paragraph doc t style_to_use of
        Inl e \<Rightarrow> Inl e
      | Inr new_para \<Rightarrow>
          (case prev of
             Body_start \<Rightarrow>
               insert_new_paragraphs doc style_to_use (After 0) ts (Para new_para # es)
           | After i \<Rightarrow>
               insert_new_paragraphs doc style_to_use (After (Suc i)) ts
                 (insert_after_para i new_para es)
           | Unlinked \<Rightarrow> insert_new_paragraphs doc style_to_use Unlinked ts es))"

datatype range_message =
    Range_not_exist path
    \<comment> \<open>\<^verbatim>\<open>Document ... does not exist\<close>\<close>
  | Range_invalid int int nat
    \<comment> \<open>\<^verbatim>\<open>Invalid range [{start}, {end}]. Document has {total} paragraphs (0-{total-1}).\<close>\<close>
  | Range_failed fault
    \<comment> \<open>\<^verbatim>\<open>Failed to replace paragraph range: ...\<close>\<close>
  | Range_replaced int int int nat
    \<comment> \<open>\<^verbatim>\<open>Replaced {removed} paragraph(s) (indices {start}-{end}) with {n} new paragraph(s).\<close>\<close>

definition range_style ::
  "document \<Rightarrow> int \<Rightarrow> string option \<Rightarrow> bool \<Rightarrow> fault + string" where
  \<comment> \<open>the style for the new paragraphs: the \<^verbatim>\<open>style\<close> argument, else with
      \<^verbatim>\<open>preserve_style\<close> the style of the paragraph at \<^verbatim>\<open>start_index\<close>, else Normal\<close>
  "range_style doc start_index sty preserve_style =
     (if truthy sty then Inr (the sty)
      else if preserve_style then
        (case py_index (paragraphs (body doc)) start_index of
           Inl e \<Rightarrow> Inl e
         | Inr p \<Rightarrow> Inr (style_name p))
      else Inr ''Normal'')"

definition replace_range_body ::
  "document \<Rightarrow> int \<Rightarrow> int \<Rightarrow> string list \<Rightarrow> string option \<Rightarrow> bool \<Rightarrow> fault + element list" where
  \<comment> \<open>what \<^verbatim>\<open>replace_paragraph_range\<close> does to the body of the loaded document between
      its range check and its save\<close>
  "replace_range_body doc start_index end_index new_paragraphs sty preserve_style =
     (case range_style doc start_index sty preserve_style of
        Inl e \<Rightarrow> Inl e
      | Inr style_to_use \<Rightarrow>
          let prev = (if start_index > 0 then After (nat (start_index - 1)) else Body_start) in
          (case remove_descending (rev [start_index..end_index]) (body doc) of
             Inl e \<Rightarrow> Inl e
           | Inr es \<Rightarrow> insert_new_paragraphs doc style_to_use prev new_paragraphs es))"

definition replace_paragraph_range ::
  "files \<Rightarrow> path \<Rightarrow> int \<Rightarrow> int \<Rightarrow> string list \<Rightarrow> string option \<Rightarrow> bool
     \<Rightarrow> range_message \<times> files" where
  "replace_paragraph_range fs doc_path start_index end_index new_paragraphs sty preserve_style =
     (if \<not> exists fs doc_path then (Range_not_exist doc_path, fs)
      else case Document fs doc_path of
        Inl e \<Rightarrow> (Range_failed e, fs)
      | Inr doc \<Rightarrow>
          let total = length (paragraphs (body doc)) in
          if start_index < 0 \<or> end_index \<ge> int total \<or> start_index > end_index
          then (Range_invalid start_index end_index total, fs)
          else (case replace_range_body doc start_index end_index new_paragraphs sty
                       preserve_style of
                  Inl e \<Rightarrow> (Range_failed e, fs)
                | Inr es \<Rightarrow>
                    (Range_replaced (end_index - start_index + 1) start_index end_index
                       (length new_paragraphs),
                     save fs doc_path (doc\<lparr>body := es\<rparr>))))"

text \<open>
  The style precedence as the specification words it: the explicit style, else with
  \<^verbatim>\<open>preserve_style\<close> the style of the paragraph at the start of the range, else Normal.
\<close>

definition resolved_style :: "document \<Rightarrow> int \<Rightarrow> string option \<Rightarrow> bool \<Rightarrow> string" where
  "resolved_style doc s sty preserve_style =
     (if truthy sty then the sty
      else if preserve_style then style_name (paragraphs (body doc) ! nat s)
      else ''Normal'')"

section \<open>Replacing the block below a header\<close>

definition is_toc_paragraph :: "para \<Rightarrow> bool" where
  \<comment> \<open>\<^verbatim>\<open>para.style and para.style.name.upper().startswith("TOC")\<close>\<close>
  "is_toc_paragraph p \<longleftrightarrow> (case style p of None \<Rightarrow> False | Some s \<Rightarrow> startswith (upper s) ''TOC'')"

definition is_heading_paragraph :: "para \<Rightarrow> bool" where
  \<comment> \<open>\<^verbatim>\<open>para.style and para.style.name.lower().startswith("heading")\<close>\<close>
  "is_heading_paragraph p \<longleftrightarrow>
     (case style p of None \<Rightarrow> False | Some s \<Rightarrow> startswith (lower s) ''heading'')"

fun first_index :: "('a \<Rightarrow> bool) \<Rightarrow> 'a list \<Rightarrow> nat option" where
  \<comment> \<open>\<^verbatim>\<open>for i, x in enumerate(xs): if P(x): idx = i; break\<close>, with \<open>idx\<close> initially \<open>None\<close>\<close>
  "first_index P [] = None"
| "first_index P (x # xs) = (if P x then Some 0 else map_option Suc (first_index P xs))"

definition two_pass :: "('a \<Rightarrow> bool) \<Rightarrow> ('a \<Rightarrow> bool) \<Rightarrow> 'a list \<Rightarrow> nat option" where
  \<comment> \<open>a first loop, and a second loop that runs only if the first has left the index \<open>None\<close>\<close>
  "two_pass P Q xs = (case first_index P xs of Some i \<Rightarrow> Some i | None \<Rightarrow> first_index Q xs)"

definition block_header_exact :: "string \<Rightarrow> para \<Rightarrow> bool" where
  \<comment> \<open>pass 1 of \<^verbatim>\<open>replace_paragraph_block_below_header\<close>: table-of-contents paragraphs
      are skipped, the normalized lower-case texts are compared\<close>
  "block_header_exact header_text p \<longleftrightarrow>
     \<not> is_toc_paragraph p
     \<and> lower (normalize_text (para_text p)) = lower (normalize_text header_text)"

definition block_header_contains :: "string \<Rightarrow> para \<Rightarrow> bool" where
  \<comment> \<open>pass 2 of \<^verbatim>\<open>replace_paragraph_block_below_header\<close>\<close>
  "block_header_contains header_text p \<longleftrightarrow>
     \<not> is_toc_paragraph p \<and> is_heading_paragraph p
     \<and> str_in (lower (normalize_text header_text)) (lower (normalize_text (para_text p)))"

definition find_block_header :: "para list \<Rightarrow> string \<Rightarrow> nat option" where
  \<comment> \<open>\<^verbatim>\<open>header_idx\<close> of \<^verbatim>\<open>replace_paragraph_block_below_header\<close>\<close>
  "find_block_header ps header_text =
     two_pass (block_header_exact header_text) (block_header_contains header_text) ps"

definition find_delete_header :: "para list \<Rightarrow> string \<Rightarrow> nat option" where
  \<comment> \<open>\<^verbatim>\<open>header_idx\<close> of \<^verbatim>\<open>delete_block_under_header\<close>: the same two passes, which here do
      not skip table-of-contents paragraphs\<close>
  "find_delete_header ps header_text =
     two_pass (\<lambda>p. lower (normalize_text (para_text p)) = lower (normalize_text header_text))
       (\<lambda>p. is_heading_paragraph p
            \<and> str_in (lower (normalize_text header_text)) (lower (normalize_text (para_text p))))
       ps"

definition ends_block :: "para \<Rightarrow> bool" where
  \<comment> \<open>\<^verbatim>\<open>para.style and para.style.name.lower().startswith(('heading', 't\<dots>tulo', 'toc'))\<close>;
      the second prefix has the letter i with acute accent, code point 237\<close>
  "ends_block p \<longleftrightarrow>
     (case style p of None \<Rightarrow> False
      | Some s \<Rightarrow> startswith (lower s) ''heading''
                \<or> startswith (lower s) (CHR ''t'' # CHR 0xED # ''tulo'')
                \<or> startswith (lower s) ''toc'')"

definition block_end :: "para list \<Rightarrow> nat \<Rightarrow> nat" where
  \<comment> \<open>\<^verbatim>\<open>end_idx\<close>: the first paragraph after the header whose style ends the block, else
      the number of paragraphs\<close>
  "block_end ps header_idx =
     (case first_index ends_block (drop (header_idx + 1) ps) of
        Some k \<Rightarrow> header_idx + 1 + k
      | None \<Rightarrow> length ps)"

fun remove_block :: "nat \<Rightarrow> nat list \<Rightarrow> element list \<Rightarrow> nat \<Rightarrow> fault + element list \<times> nat" where
  \<comment> \<open>\<^verbatim>\<open>for i in range(header_idx + 1, end_idx)\<close>: if \<open>i\<close> is below the number of paragraphs
      that the document has now, remove the paragraph after the header and count it\<close>
  "remove_block header_idx [] es removed_count = Inr (es, removed_count)"
| "remove_block header_idx (i # is) es removed_count =
     (if i < length (paragraphs es)
      then (case remove_paragraph es (int header_idx + 1) of
              Inl e \<Rightarrow> Inl e
            | Inr es' \<Rightarrow> remove_block header_idx is es' (removed_count + 1))
      else remove_block header_idx is es removed_count)"

definition delete_block_under_header ::
  "element list \<Rightarrow> string \<Rightarrow> fault + nat option \<times> nat \<times> element list" where
  \<comment> \<open>returns the header (its paragraph number), the count of removed elements, and the
      body of the document, which the source changes in place\<close>
  "delete_block_under_header es header_text =
     (case find_delete_header (paragraphs es) header_text of
        None \<Rightarrow> Inr (None, 0, es)
      | Some header_idx \<Rightarrow>
          (case remove_block header_idx
                  [header_idx + 1 ..< block_end (paragraphs es) header_idx] es 0 of
             Inl e \<Rightarrow> Inl e
           | Inr (es', removed_count) \<Rightarrow> Inr (Some header_idx, removed_count, es')))"

datatype header_message =
    Header_doc_not_found path
    \<comment> \<open>\<^verbatim>\<open>Document ... not found.\<close>\<close>
  | Header_not_found string
    \<comment> \<open>\<^verbatim>\<open>Header '...' not found in document.\<close>\<close>
  | Header_replaced string nat string nat
    \<comment> \<open>\<^verbatim>\<open>Replaced content under '{header_text}' with {n} paragraph(s), style: {style},
        removed {removed_count} elements.\<close>\<close>

definition header_after_delete :: "nat \<Rightarrow> nat option \<Rightarrow> nat \<Rightarrow> anchor" where
  \<comment> \<open>where the paragraph object \<^verbatim>\<open>header_para\<close>, number \<open>header_idx\<close> before the deletion,
      is after \<open>removed_count\<close> paragraphs have been removed behind the paragraph that
      \<^verbatim>\<open>delete_block_under_header\<close> took for the header\<close>
  "header_after_delete header_idx deleted_below removed_count =
     (case deleted_below of
        None \<Rightarrow> After header_idx
      | Some d \<Rightarrow>
          if header_idx \<le> d then After header_idx
          else if d + removed_count < header_idx then After (header_idx - removed_count)
          else Unlinked)"

definition replace_paragraph_block_below_header ::
  "files \<Rightarrow> path \<Rightarrow> string \<Rightarrow> string list \<Rightarrow> string option
     \<Rightarrow> (fault + header_message) \<times> files" where
  \<comment> \<open>the source has no handler around its body: a fault leaves the function as \<open>Inl\<close>\<close>
  "replace_paragraph_block_below_header fs doc_path header_text new_paragraphs new_paragraph_style =
     (if \<not> exists fs doc_path then (Inr (Header_doc_not_found doc_path), fs)
      else case Document fs doc_path of
        Inl e \<Rightarrow> (Inl e, fs)
      | Inr doc \<Rightarrow>
          (case find_block_header (paragraphs (body doc)) header_text of
             None \<Rightarrow> (Inr (Header_not_found header_text), fs)
           | Some header_idx \<Rightarrow>
               (case delete_block_under_header (body doc) header_text of
                  Inl e \<Rightarrow> (Inl e, fs)
                | Inr (header_el, removed_count, es) \<Rightarrow>
                    let style_to_use =
                          (if truthy new_paragraph_style then the new_paragraph_style
                           else ''Normal'')
                    in (case insert_new_paragraphs doc style_to_use
                               (header_after_delete header_idx header_el removed_count)
                               new_paragraphs es of
                          Inl e \<Rightarrow> (Inl e, fs)
                        | Inr es' \<Rightarrow>
                            (Inr (Header_replaced header_text (length new_paragraphs)
                                    style_to_use removed_count),
                             save fs doc_path (doc\<lparr>body := es'\<rparr>))))))"

section \<open>Replacing the block between two anchors\<close>

definition p_text :: "para \<Rightarrow> string" where
  \<comment> \<open>the text nodes of the paragraph element joined and stripped\<close>
  "p_text p = strip (para_text p)"

type_synonym match_fn = "string \<Rightarrow> para \<Rightarrow> bool \<Rightarrow> bool"
  \<comment> \<open>\<^verbatim>\<open>match_fn(p_text, el, is_end=False)\<close>\<close>

definition anchor_exact :: "match_fn option \<Rightarrow> bool \<Rightarrow> string \<Rightarrow> element \<Rightarrow> bool" where
  \<comment> \<open>pass 1 for an anchor: the caller's \<^verbatim>\<open>match_fn\<close> if there is one, else equality of the
      normalized texts; only paragraph elements are looked at\<close>
  "anchor_exact mf is_end anchor_text el \<longleftrightarrow>
     (case el of
        Tbl t \<Rightarrow> False
      | Para p \<Rightarrow>
          (case mf of
             Some f \<Rightarrow> f (p_text p) p is_end
           | None \<Rightarrow> normalize_text (p_text p) = normalize_text anchor_text))"

definition anchor_contains :: "string \<Rightarrow> element \<Rightarrow> bool" where
  \<comment> \<open>pass 2 for an anchor: the normalized anchor text occurs in the normalized text\<close>
  "anchor_contains anchor_text el \<longleftrightarrow>
     (case el of
        Tbl t \<Rightarrow> False
      | Para p \<Rightarrow> str_in (normalize_text anchor_text) (normalize_text (p_text p)))"

definition find_anchor :: "match_fn option \<Rightarrow> bool \<Rightarrow> string \<Rightarrow> element list \<Rightarrow> nat option" where
  \<comment> \<open>the two passes over a list of elements; pass 2 runs only without a \<^verbatim>\<open>match_fn\<close>\<close>
  "find_anchor mf is_end anchor_text els =
     (case first_index (anchor_exact mf is_end anchor_text) els of
        Some i \<Rightarrow> Some i
      | None \<Rightarrow> if mf = None then first_index (anchor_contains anchor_text) els else None)"

definition visually_distinct :: "element \<Rightarrow> bool" where
  \<comment> \<open>a paragraph with a run whose properties have a bold, an all-caps or a size element\<close>
  "visually_distinct el \<longleftrightarrow>
     (case el of
        Tbl t \<Rightarrow> False
      | Para p \<Rightarrow> list_ex (\<lambda>r. bold r \<noteq> None \<or> caps r \<noteq> None \<or> sz r \<noteq> None) (runs p))"

definition find_end :: "match_fn option \<Rightarrow> string option \<Rightarrow> element list \<Rightarrow> nat \<Rightarrow> nat option" where
  \<comment> \<open>\<^verbatim>\<open>end_idx\<close>: searched in \<^verbatim>\<open>range(start_idx + 1, len(elements))\<close>, by the end anchor if
      one is given, else by the first visually distinct paragraph\<close>
  "find_end mf end_anchor_text elements start_idx =
     map_option (\<lambda>k. start_idx + 1 + k)
       (if truthy end_anchor_text
        then find_anchor mf True (the end_anchor_text) (drop (start_idx + 1) elements)
        else first_index visually_distinct (drop (start_idx + 1) elements))"

definition refind_anchor :: "para list \<Rightarrow> string \<Rightarrow> nat option" where
  \<comment> \<open>\<^verbatim>\<open>anchor_idx\<close>: the start anchor looked up again in the reloaded document, by text only\<close>
  "refind_anchor paras start_anchor_text =
     two_pass (\<lambda>p. normalize_text (para_text p) = normalize_text start_anchor_text)
       (\<lambda>p. str_in (normalize_text start_anchor_text) (normalize_text (para_text p)))
       paras"

datatype anchor_message =
    Anchor_doc_not_found path
    \<comment> \<open>\<^verbatim>\<open>Document ... not found.\<close>\<close>
  | Start_anchor_not_found string
    \<comment> \<open>\<^verbatim>\<open>Start anchor '...' not found.\<close>\<close>
  | Start_anchor_not_found_after_deletion string
    \<comment> \<open>\<^verbatim>\<open>Start anchor '...' not found after deletion (unexpected).\<close>\<close>
  | Anchors_replaced string "string option" nat string nat
    \<comment> \<open>\<^verbatim>\<open>Replaced content between '{start}' and '{end or 'next logical header'}' with {n}
        paragraph(s), style: {style}, removed {len(to_remove)} elements.\<close>\<close>

definition replace_block_between_manual_anchors ::
  "files \<Rightarrow> path \<Rightarrow> string \<Rightarrow> string list \<Rightarrow> string option \<Rightarrow> match_fn option \<Rightarrow> string option
     \<Rightarrow> (fault + anchor_message) \<times> files" where
  \<comment> \<open>the source has no handler around its body, and it saves twice: after the removal and
      after the insertion\<close>
  "replace_block_between_manual_anchors fs doc_path start_anchor_text new_paragraphs
       end_anchor_text mf new_paragraph_style =
     (if \<not> exists fs doc_path then (Inr (Anchor_doc_not_found doc_path), fs)
      else case Document fs doc_path of
        Inl e \<Rightarrow> (Inl e, fs)
      | Inr doc \<Rightarrow>
          let elements = body doc in
          (case find_anchor mf False start_anchor_text elements of
             None \<Rightarrow> (Inr (Start_anchor_not_found start_anchor_text), fs)
           | Some start_idx \<Rightarrow>
               let end_idx = find_end mf end_anchor_text elements start_idx;
                   stop = (case end_idx of Some e \<Rightarrow> e | None \<Rightarrow> length elements);
                   to_remove = take (stop - (start_idx + 1)) (drop (start_idx + 1) elements);
                   fs1 = save fs doc_path
                           (doc\<lparr>body := take (start_idx + 1) elements @ drop stop elements\<rparr>)
               in (case Document fs1 doc_path of
                     Inl e \<Rightarrow> (Inl e, fs1)
                   | Inr doc1 \<Rightarrow>
                       (case refind_anchor (paragraphs (body doc1)) start_anchor_text of
                          None \<Rightarrow>
                            (Inr (Start_anchor_not_found_after_deletion start_anchor_text), fs1)
                        | Some anchor_idx \<Rightarrow>
                            let style_to_use =
                                  (if truthy new_paragraph_style then the new_paragraph_style
                                   else ''Normal'')
                            in (case insert_new_paragraphs doc1 style_to_use (After anchor_idx)
                                       new_paragraphs (body doc1) of
                                  Inl e \<Rightarrow> (Inl e, fs1)
                                | Inr es' \<Rightarrow>
                                    (Inr (Anchors_replaced start_anchor_text end_anchor_text
                                            (length new_paragraphs) style_to_use
                                            (length to_remove)),
                                     save fs1 doc_path (doc1\<lparr>body := es'\<rparr>)))))))"

section \<open>Finding text\<close>

datatype location =
    Paragraph_index nat
    \<comment> \<open>\<^verbatim>\<open>"paragraph_index": i\<close>\<close>
  | Table_location nat nat nat
    \<comment> \<open>\<^verbatim>\<open>"location": "Table {table_idx}, Row {row_idx}, Column {col_idx}"\<close>\<close>

datatype shown =
    Context string
    \<comment> \<open>\<^verbatim>\<open>"context"\<close>\<close>
  | Text_and_style string string
    \<comment> \<open>\<^verbatim>\<open>"text"\<close> and \<^verbatim>\<open>"style"\<close>\<close>

record occurrence =
  place :: location
  position :: nat
  shown :: shown

definition show_paragraph :: "bool \<Rightarrow> para \<Rightarrow> shown" where
  "show_paragraph include_paragraph_text p =
     (if include_paragraph_text then Text_and_style (para_text p) (style_name p)
      else Context (take 100 (para_text p) @ (if length (para_text p) > 100 then ''...'' else [])))"

definition whole_word_positions :: "bool \<Rightarrow> string \<Rightarrow> string \<Rightarrow> nat list" where
  \<comment> \<open>\<^verbatim>\<open>for word_idx, word in enumerate(para_text.split())\<close>: the indices of the words that
      pass the test\<close>
  "whole_word_positions match_case para_txt search_text =
     map fst (filter (\<lambda>(word_idx, word).
                word = search_text \<or> (\<not> match_case \<and> lower word = lower search_text))
              (enumerate 0 (split para_txt)))"

definition find_from :: "string \<Rightarrow> string \<Rightarrow> nat \<Rightarrow> nat option" where
  \<comment> \<open>\<^verbatim>\<open>s.find(sub, start)\<close>\<close>
  "find_from s sub start =
     (if start > length s then None
      else map_option (\<lambda>k. start + k) (str_find (drop start s) sub))"

partial_function (option) substring_positions ::
  "string \<Rightarrow> string \<Rightarrow> nat \<Rightarrow> nat list \<Rightarrow> nat list option" where
  \<comment> \<open>the \<^verbatim>\<open>while True\<close> loop of the substring search, from \<^verbatim>\<open>start_pos\<close>, with the positions
      found so far\<close>
  "substring_positions para_txt search_text start_pos found =
     (case find_from para_txt search_text start_pos of
        None \<Rightarrow> Some found
      | Some pos \<Rightarrow>
          substring_positions para_txt search_text (pos + length search_text) (found @ [pos]))"

declare substring_positions.simps [code]

definition paragraph_occurrences ::
  "string \<Rightarrow> bool \<Rightarrow> bool \<Rightarrow> bool \<Rightarrow> location \<times> para \<Rightarrow> occurrence list option" where
  \<comment> \<open>the body of the loop over paragraphs: the occurrences found in one paragraph\<close>
  "paragraph_occurrences text_to_find match_case whole_word include_paragraph_text lp =
     (let para_txt = (if match_case then para_text (snd lp) else lower (para_text (snd lp)));
          search_text = (if match_case then text_to_find else lower text_to_find)
      in map_option
           (map (\<lambda>pos. \<lparr>place = fst lp, position = pos,
                         shown = show_paragraph include_paragraph_text (snd lp)\<rparr>))
           (if whole_word then Some (whole_word_positions match_case para_txt search_text)
            else substring_positions para_txt search_text 0 []))"

fun collect :: "('a \<Rightarrow> 'b list option) \<Rightarrow> 'a list \<Rightarrow> 'b list option" where
  \<comment> \<open>a loop that appends what its body finds for each element\<close>
  "collect f [] = Some []"
| "collect f (x # xs) =
     (case f x of
        None \<Rightarrow> None
      | Some ys \<Rightarrow> (case collect f xs of None \<Rightarrow> None | Some zs \<Rightarrow> Some (ys @ zs)))"

definition body_paragraphs :: "document \<Rightarrow> (location \<times> para) list" where
  \<comment> \<open>\<^verbatim>\<open>for i, para in enumerate(doc.paragraphs)\<close>\<close>
  "body_paragraphs doc =
     map (\<lambda>(i, p). (Paragraph_index i, p)) (enumerate 0 (paragraphs (body doc)))"

definition table_paragraphs :: "document \<Rightarrow> (location \<times> para) list" where
  \<comment> \<open>the four nested loops over tables, rows, cells and the paragraphs of a cell\<close>
  "table_paragraphs doc =
     concat (map (\<lambda>(table_idx, t).
       concat (map (\<lambda>(row_idx, row).
         concat (map (\<lambda>(col_idx, cell).
           map (\<lambda>p. (Table_location table_idx row_idx col_idx, p)) cell)
           (enumerate 0 row)))
         (enumerate 0 t)))
       (enumerate 0 (tables (body doc))))"

datatype find_result =
    Find_not_exist path
    \<comment> \<open>\<^verbatim>\<open>{"error": "Document ... does not exist"}\<close>\<close>
  | Find_empty
    \<comment> \<open>\<^verbatim>\<open>{"error": "Search text cannot be empty"}\<close>\<close>
  | Find_failed fault
    \<comment> \<open>\<^verbatim>\<open>{"error": "Failed to search for text: ..."}\<close>\<close>
  | Found "occurrence list"
    \<comment> \<open>\<^verbatim>\<open>"occurrences"\<close>; \<^verbatim>\<open>"total_count"\<close> is their number\<close>

definition find_text ::
  "files \<Rightarrow> path \<Rightarrow> string \<Rightarrow> bool \<Rightarrow> bool \<Rightarrow> bool \<Rightarrow> find_result option" where
  \<comment> \<open>\<open>None\<close>: the call does not return\<close>
  "find_text fs doc_path text_to_find match_case whole_word include_paragraph_text =
     (if \<not> exists fs doc_path then Some (Find_not_exist doc_path)
      else if text_to_find = [] then Some Find_empty
      else case Document fs doc_path of
        Inl e \<Rightarrow> Some (Find_failed e)
      | Inr doc \<Rightarrow>
          map_option Found
            (collect (paragraph_occurrences text_to_find match_case whole_word
                        include_paragraph_text)
               (body_paragraphs doc @ table_paragraphs doc)))"

section \<open>The heading of a section\<close>

definition has_Heading_style :: "para \<Rightarrow> bool" where
  \<comment> \<open>\<^verbatim>\<open>para.style and para.style.name.startswith("Heading")\<close>\<close>
  "has_Heading_style p \<longleftrightarrow> (case style p of None \<Rightarrow> False | Some s \<Rightarrow> startswith s ''Heading'')"

definition section_heading_exact :: "string \<Rightarrow> para \<Rightarrow> bool" where
  "section_heading_exact heading_text p \<longleftrightarrow>
     has_Heading_style p \<and> normalize_text (para_text p) = normalize_text heading_text"

definition section_heading_contains :: "string \<Rightarrow> para \<Rightarrow> bool" where
  "section_heading_contains heading_text p \<longleftrightarrow>
     has_Heading_style p \<and> str_in (normalize_text heading_text) (normalize_text (para_text p))"

definition find_section_heading :: "para list \<Rightarrow> string \<Rightarrow> nat option" where
  \<comment> \<open>\<^verbatim>\<open>heading_idx\<close> of \<^verbatim>\<open>get_section_paragraphs\<close>: the exact pass, then the substring pass\<close>
  "find_section_heading ps heading_text =
     two_pass (section_heading_exact heading_text) (section_heading_contains heading_text) ps"

text \<open>
  The word test as the specification words it: equality with the search text, up to
  lower-casing when the search does not match case.
\<close>

definition word_equal :: "bool \<Rightarrow> string \<Rightarrow> string \<Rightarrow> bool" where
  "word_equal match_case word search_text \<longleftrightarrow>
     (if match_case then word = search_text else lower word = lower search_text)"

text \<open>
  What a whole-word search is to report for one paragraph: one occurrence for each index
  of the list of whitespace-separated words whose word passes the word test.
\<close>

definition word_occurrences :: "string \<Rightarrow> bool \<Rightarrow> bool \<Rightarrow> location \<times> para \<Rightarrow> occurrence list" where
  "word_occurrences q mc inc lp =
     map (\<lambda>k. \<lparr>place = fst lp, position = k, shown = show_paragraph inc (snd lp)\<rparr>)
       (filter (\<lambda>k. word_equal mc (split (para_text (snd lp)) ! k) q)
          [0..<length (split (para_text (snd lp)))])"

section \<open>Replacing text across runs\<close>

definition runs_text :: "run list \<Rightarrow> string" where
  \<comment> \<open>\<^verbatim>\<open>para.text\<close> of a paragraph with these runs\<close>
  "runs_text rs = concat (map run_text rs)"

definition char_map :: "run list \<Rightarrow> (nat \<times> nat) list" where
  \<comment> \<open>for each character of the text in order, the index of its run and its offset there\<close>
  "char_map rs =
     concat (map (\<lambda>(ri, r). map (\<lambda>ci. (ri, ci)) [0..<length (run_text r)]) (enumerate 0 rs))"

definition set_text :: "nat \<Rightarrow> string \<Rightarrow> run list \<Rightarrow> run list" where
  \<comment> \<open>\<^verbatim>\<open>runs[ri].text = t\<close>\<close>
  "set_text ri t rs = rs[ri := (rs ! ri)\<lparr>run_text := t\<rparr>]"

definition multi_run_result :: "run list \<Rightarrow> string \<Rightarrow> nat \<Rightarrow> nat \<Rightarrow> nat \<Rightarrow> nat \<Rightarrow> run list" where
  \<comment> \<open>the multi-run branch: the first run keeps its prefix and gets the replacement,
      the runs between the first and the last are cleared, the last keeps its suffix\<close>
  "multi_run_result rs new_text start_ri start_ci end_ri end_ci =
     (let rs1 = set_text start_ri (take start_ci (run_text (rs ! start_ri)) @ new_text) rs;
          rs2 = fold (\<lambda>ri. set_text ri []) [start_ri + 1 ..< end_ri] rs1
      in set_text end_ri (drop (end_ci + 1) (run_text (rs2 ! end_ri))) rs2)"

datatype step = Break | Replaced "run list"

definition replace_first :: "string \<Rightarrow> string \<Rightarrow> run list \<Rightarrow> fault + step" where
  \<comment> \<open>the body of the \<^verbatim>\<open>while\<close> loop of \<^verbatim>\<open>_replace_in_paragraph\<close>: it leaves the loop, or it
      replaces the first occurrence, or it raises. The run indices come from the character
      map and are indices of \<open>rs\<close>.\<close>
  "replace_first old_text new_text rs =
     (case str_find (runs_text rs) old_text of
        None \<Rightarrow> Inr Break
      | Some start \<Rightarrow>
          if rs = [] then Inr Break
          else if start + length old_text > length (char_map rs) then Inr Break
          else
            (case py_index (char_map rs) (int start) of
               Inl e \<Rightarrow> Inl e
             | Inr (start_ri, start_ci) \<Rightarrow>
                 (case py_index (char_map rs) (int start + int (length old_text) - 1) of
                    Inl e \<Rightarrow> Inl e
                  | Inr (end_ri, end_ci) \<Rightarrow>
                      if start_ri = end_ri
                      then Inr (Replaced
                             (set_text start_ri
                                (take start_ci (run_text (rs ! start_ri)) @ new_text
                                   @ drop (end_ci + 1) (run_text (rs ! start_ri))) rs))
                      else Inr (Replaced
                             (multi_run_result rs new_text start_ri start_ci end_ri end_ci)))))"

partial_function (option) replace_loop ::
  "string \<Rightarrow> string \<Rightarrow> run list \<Rightarrow> nat \<Rightarrow> (fault + nat \<times> run list) option" where
  \<comment> \<open>\<^verbatim>\<open>while old_text in para.text\<close>, with the count so far; \<open>None\<close>: the loop never ends\<close>
  "replace_loop old_text new_text rs count =
     (if str_in old_text (runs_text rs)
      then (case replace_first old_text new_text rs of
              Inl e \<Rightarrow> Some (Inl e)
            | Inr Break \<Rightarrow> Some (Inr (count, rs))
            | Inr (Replaced rs') \<Rightarrow> replace_loop old_text new_text rs' (count + 1))
      else Some (Inr (count, rs)))"

declare replace_loop.simps [code]

definition replace_in_paragraph ::
  "para \<Rightarrow> string \<Rightarrow> string \<Rightarrow> (fault + nat \<times> para) option" where
  \<comment> \<open>\<^verbatim>\<open>_replace_in_paragraph\<close>: the count, and the paragraph, which the source changes in
      place\<close>
  "replace_in_paragraph p old_text new_text =
     (case replace_loop old_text new_text (runs p) 0 of
        None \<Rightarrow> None
      | Some (Inl e) \<Rightarrow> Some (Inl e)
      | Some (Inr (count, rs)) \<Rightarrow> Some (Inr (count, p\<lparr>runs := rs\<rparr>)))"

definition has_TOC_style :: "para \<Rightarrow> bool" where
  \<comment> \<open>\<^verbatim>\<open>para.style and para.style.name.startswith("TOC")\<close>\<close>
  "has_TOC_style p \<longleftrightarrow> (case style p of None \<Rightarrow> False | Some s \<Rightarrow> startswith s ''TOC'')"

definition replace_in_para :: "string \<Rightarrow> string \<Rightarrow> para \<Rightarrow> (fault + nat \<times> para) option" where
  \<comment> \<open>the body of the loops of \<^verbatim>\<open>find_and_replace_text\<close> over paragraphs\<close>
  "replace_in_para old_text new_text p =
     (if has_TOC_style p then Some (Inr (0, p))
      else if str_in old_text (para_text p) then replace_in_paragraph p old_text new_text
      else Some (Inr (0, p)))"

fun replace_each :: "('a \<Rightarrow> (fault + nat \<times> 'a) option) \<Rightarrow> 'a list \<Rightarrow> (fault + nat \<times> 'a list) option" where
  \<comment> \<open>a loop that changes each element in turn and adds up the counts\<close>
  "replace_each f [] = Some (Inr (0, []))"
| "replace_each f (x # xs) =
     (case f x of
        None \<Rightarrow> None
      | Some (Inl e) \<Rightarrow> Some (Inl e)
      | Some (Inr (c, x')) \<Rightarrow>
          (case replace_each f xs of
             None \<Rightarrow> None
           | Some (Inl e) \<Rightarrow> Some (Inl e)
           | Some (Inr (cs, xs')) \<Rightarrow> Some (Inr (c + cs, x' # xs'))))"

definition replace_in_body_paragraph ::
  "string \<Rightarrow> string \<Rightarrow> element \<Rightarrow> (fault + nat \<times> element) option" where
  \<comment> \<open>\<^verbatim>\<open>for para in doc.paragraphs\<close>: tables are passed over\<close>
  "replace_in_body_paragraph old_text new_text el =
     (case el of
        Tbl t \<Rightarrow> Some (Inr (0, Tbl t))
      | Para p \<Rightarrow>
          (case replace_in_para old_text new_text p of
             None \<Rightarrow> None
           | Some (Inl e) \<Rightarrow> Some (Inl e)
           | Some (Inr (c, p')) \<Rightarrow> Some (Inr (c, Para p'))))"

definition replace_in_table ::
  "string \<Rightarrow> string \<Rightarrow> element \<Rightarrow> (fault + nat \<times> element) option" where
  \<comment> \<open>\<^verbatim>\<open>for table in doc.tables\<close>, its rows, their cells, their paragraphs\<close>
  "replace_in_table old_text new_text el =
     (case el of
        Para p \<Rightarrow> Some (Inr (0, Para p))
      | Tbl t \<Rightarrow>
          (case replace_each (replace_each (replace_each (replace_in_para old_text new_text))) t of
             None \<Rightarrow> None
           | Some (Inl e) \<Rightarrow> Some (Inl e)
           | Some (Inr (c, t')) \<Rightarrow> Some (Inr (c, Tbl t'))))"

definition find_and_replace_text ::
  "document \<Rightarrow> string \<Rightarrow> string \<Rightarrow> (fault + nat \<times> document) option" where
  \<comment> \<open>the count, and the document, which the source changes in place: first the
      paragraphs of the body, then the tables\<close>
  "find_and_replace_text doc old_text new_text =
     (case replace_each (replace_in_body_paragraph old_text new_text) (body doc) of
        None \<Rightarrow> None
      | Some (Inl e) \<Rightarrow> Some (Inl e)
      | Some (Inr (c1, es1)) \<Rightarrow>
          (case replace_each (replace_in_table old_text new_text) es1 of
             None \<Rightarrow> None
           | Some (Inl e) \<Rightarrow> Some (Inl e)
           | Some (Inr (c2, es2)) \<Rightarrow> Some (Inr (c1 + c2, doc\<lparr>body := es2\<rparr>))))"

text \<open>
  \<open>n\<close> replacement steps in a row, for stating how many replacements a call has performed.
\<close>

fun replace_times :: "nat \<Rightarrow> string \<Rightarrow> string \<Rightarrow> run list \<Rightarrow> run list option" where
  "replace_times 0 old_text new_text rs = Some rs"
| "replace_times (Suc n) old_text new_text rs =
     (case replace_first old_text new_text rs of
        Inr (Replaced rs') \<Rightarrow> replace_times n old_text new_text rs'
      | _ \<Rightarrow> None)"

text \<open>
  A paragraph with a table-of-contents style is kept as it is; so is every such
  paragraph of a table.
\<close>

definition keeps_toc :: "para \<Rightarrow> para \<Rightarrow> bool" where
  "keeps_toc p p' \<longleftrightarrow> (has_TOC_style p \<longrightarrow> p' = p)"

fun keeps_toc_element :: "element \<Rightarrow> element \<Rightarrow> bool" where
  "keeps_toc_element (Para p) (Para p') = keeps_toc p p'"
| "keeps_toc_element (Tbl t) (Tbl t') = list_all2 (list_all2 (list_all2 keeps_toc)) t t'"
| "keeps_toc_element _ _ = False"

text \<open>
  The two passes of \<^verbatim>\<open>find_and_replace_text\<close> taken apart: the first leaves tables alone,
  the second leaves body paragraphs alone.
\<close>

fun body_pass :: "element \<Rightarrow> element \<Rightarrow> bool" where
  "body_pass (Para p) (Para p') = keeps_toc p p'"
| "body_pass (Tbl t) (Tbl t') = (t' = t)"
| "body_pass _ _ = False"

fun table_pass :: "element \<Rightarrow> element \<Rightarrow> bool" where
  "table_pass (Para p) (Para p') = (p' = p)"
| "table_pass (Tbl t) (Tbl t') = list_all2 (list_all2 (list_all2 keeps_toc)) t t'"
| "table_pass _ _ = False"

section \<open>Example documents\<close>

definition plain :: "string \<Rightarrow> element" where
  \<comment> \<open>a body paragraph with one unformatted run and no style of its own\<close>
  "plain t = Para \<lparr>style = None, runs = [plain_run t]\<rparr>"

definition styled :: "string \<Rightarrow> string \<Rightarrow> element" where
  \<comment> \<open>a body paragraph with one unformatted run and the given style\<close>
  "styled s t = Para \<lparr>style = Some s, runs = [plain_run t]\<rparr>"

definition abcde :: document where
  "abcde = \<lparr>body = [plain ''A'', plain ''B'', plain ''C'', plain ''D'', plain ''E''],
            styles = [''Normal'', ''Heading 1'']\<rparr>"

definition section_doc :: document where
  \<comment> \<open>a heading followed by two paragraphs of content, at the end of the document\<close>
  "section_doc = \<lparr>body = [styled ''Heading 1'' ''Sec'', plain ''a'', plain ''b''],
                  styles = [''Normal'', ''Heading 1'']\<rparr>"

definition intro_doc :: document where
  "intro_doc = \<lparr>body = [plain ''Intro'', plain ''Body''], styles = [''Normal'']\<rparr>"

definition intro_matcher :: match_fn where
  \<comment> \<open>a caller's matcher that takes the paragraph with the text Intro for the start\<close>
  "intro_matcher t p is_end \<longleftrightarrow> t = ''Intro''"

definition toc_doc :: document where
  \<comment> \<open>a table-of-contents entry and the heading it names\<close>
  "toc_doc = \<lparr>body = [styled ''TOC 1'' ''Hello'', styled ''Heading 1'' ''Hello''],
              styles = [''Normal'', ''Heading 1'', ''TOC 1'']\<rparr>"

definition numbered_doc :: document where
  \<comment> \<open>a numbered heading, after a body paragraph that has the same phrase\<close>
  "numbered_doc = \<lparr>body = [plain ''See Section One below'',
                            styled ''Heading 1'' ''1. Section One'', plain ''Content''],
                   styles = [''Normal'', ''Heading 1'']\<rparr>"

definition hello_doc :: document where
  \<comment> \<open>the search word once with a comma attached and once alone\<close>
  "hello_doc = \<lparr>body = [plain ''say hello, hello world''], styles = [''Normal'']\<rparr>"

definition letter_a :: para where
  \<comment> \<open>a paragraph with the one-letter text a\<close>
  "letter_a = \<lparr>style = None, runs = [plain_run ''a'']\<rparr>"

definition hello_world :: para where
  \<comment> \<open>Hello World in three runs, the second one bold\<close>
  "hello_world = \<lparr>style = None,
                   runs = [plain_run ''Hel'', (plain_run ''lo '')\<lparr>bold := Some True\<rparr>,
                           plain_run ''World'']\<rparr>"

section \<open>Properties\<close>

subsection \<open>Facts about removal\<close>

lemma paragraphs_remove_para:
  "paragraphs (remove_para i es) = take i (paragraphs es) @ drop (Suc i) (paragraphs es)"
proof (induction i es rule: remove_para.induct)
qed simp_all

lemma tables_remove_para: "tables (remove_para i es) = tables es"
proof (induction i es rule: remove_para.induct)
qed simp_all

lemma remove_descending_range:
  assumes "0 \<le> s" "s \<le> e" "e < int (length (paragraphs es))"
  shows "\<exists>es'. remove_descending (rev [s..e]) es = Inr es'
           \<and> paragraphs es' = take (nat s) (paragraphs es) @ drop (nat e + 1) (paragraphs es)
           \<and> tables es' = tables es"
  using assms
proof (induction "nat (e - s)" arbitrary: e es)
  case 0
  then have [simp]: "e = s" by simp
  from 0 show ?case
    by (simp add: remove_paragraph_def paragraphs_remove_para tables_remove_para)
next
  case (Suc k)
  then have lt: "s < e" by linarith
  then have up: "[s..e] = [s..e - 1] @ [e]" by (simp add: upto_rec2)
  let ?es1 = "remove_para (nat e) es"
  have r1: "remove_paragraph es e = Inr ?es1"
    using Suc.prems lt by (simp add: remove_paragraph_def)
  have len1: "e - 1 < int (length (paragraphs ?es1))"
    using Suc.prems lt by (simp add: paragraphs_remove_para)
  from Suc.hyps(2) have k: "k = nat (e - 1 - s)" by linarith
  from Suc.hyps(1)[OF k Suc.prems(1) _ len1] lt
  obtain es' where a: "remove_descending (rev [s..e - 1]) ?es1 = Inr es'"
    and b: "paragraphs es' = take (nat s) (paragraphs ?es1) @ drop (nat (e - 1) + 1) (paragraphs ?es1)"
    and c: "tables es' = tables ?es1"
    by auto
  have e1: "nat (e - 1) + 1 = nat e" using lt Suc.prems by linarith
  have t: "take (nat s) (paragraphs ?es1) = take (nat s) (paragraphs es)"
    using lt Suc.prems by (simp add: paragraphs_remove_para min_def)
  have d: "drop (nat e) (paragraphs ?es1) = drop (nat e + 1) (paragraphs es)"
    using lt Suc.prems by (simp add: paragraphs_remove_para)
  show ?case
    using a b c r1 up e1 t d by (simp add: tables_remove_para)
qed

subsection \<open>The first match of a loop\<close>

lemma first_index_Some:
  "first_index P xs = Some i \<longleftrightarrow> i < length xs \<and> P (xs ! i) \<and> (\<forall>j<i. \<not> P (xs ! j))"
proof (induction xs arbitrary: i)
  case Nil
  then show ?case by simp
next
  case (Cons x xs)
  show ?case
  proof (cases "P x")
    case True
    then show ?thesis by (cases i) auto
  next
    case False
    show ?thesis
    proof (cases i)
      case 0
      with False show ?thesis by simp
    next
      case (Suc k)
      have "(\<forall>j<Suc k. \<not> P ((x # xs) ! j)) \<longleftrightarrow> (\<forall>j<k. \<not> P (xs ! j))"
        using False by (auto simp: less_Suc_eq_0_disj)
      with False Suc Cons.IH[of k] show ?thesis by auto
    qed
  qed
qed

lemma first_index_None: "first_index P xs = None \<longleftrightarrow> (\<forall>j<length xs. \<not> P (xs ! j))"
proof (induction xs)
  case Nil
  then show ?case by simp
next
  case (Cons x xs)
  then show ?case by (auto simp: less_Suc_eq_0_disj)
qed

lemma two_pass_Some:
  "two_pass P Q xs = Some i \<longleftrightarrow>
     i < length xs \<and>
     (P (xs ! i) \<and> (\<forall>j<i. \<not> P (xs ! j))
      \<or> (\<forall>j<length xs. \<not> P (xs ! j)) \<and> Q (xs ! i) \<and> (\<forall>j<i. \<not> Q (xs ! j)))"
proof (cases "first_index P xs")
  case None
  then have n: "\<forall>j<length xs. \<not> P (xs ! j)" by (simp add: first_index_None)
  have "two_pass P Q xs = first_index Q xs" using None by (simp add: two_pass_def)
  then show ?thesis using n by (auto simp: first_index_Some)
next
  case (Some k)
  then have k: "k < length xs" "P (xs ! k)" "\<forall>j<k. \<not> P (xs ! j)"
    by (simp_all add: first_index_Some)
  have r: "two_pass P Q xs = Some k" using Some by (simp add: two_pass_def)
  show ?thesis
  proof
    assume "two_pass P Q xs = Some i"
    with r have "i = k" by simp
    with k show "i < length xs \<and>
     (P (xs ! i) \<and> (\<forall>j<i. \<not> P (xs ! j))
      \<or> (\<forall>j<length xs. \<not> P (xs ! j)) \<and> Q (xs ! i) \<and> (\<forall>j<i. \<not> Q (xs ! j)))" by simp
  next
    assume a: "i < length xs \<and>
     (P (xs ! i) \<and> (\<forall>j<i. \<not> P (xs ! j))
      \<or> (\<forall>j<length xs. \<not> P (xs ! j)) \<and> Q (xs ! i) \<and> (\<forall>j<i. \<not> Q (xs ! j)))"
    with k have "P (xs ! i) \<and> (\<forall>j<i. \<not> P (xs ! j))" by blast
    with k have "i = k" by (meson linorder_neqE_nat)
    with r show "two_pass P Q xs = Some i" by simp
  qed
qed

lemma two_pass_None:
  "two_pass P Q xs = None \<longleftrightarrow> (\<forall>j<length xs. \<not> P (xs ! j) \<and> \<not> Q (xs ! j))"
proof (cases "first_index P xs")
  case None
  then have n: "\<forall>j<length xs. \<not> P (xs ! j)" by (simp add: first_index_None)
  have "two_pass P Q xs = first_index Q xs" using None by (simp add: two_pass_def)
  then show ?thesis using n by (auto simp: first_index_None)
next
  case (Some k)
  then have "k < length xs" "P (xs ! k)" by (simp_all add: first_index_Some)
  with Some show ?thesis by (auto simp: two_pass_def)
qed

subsection \<open>Deleting a paragraph range\<close>

lemma delete_valid:
  assumes f: "fs doc_path = Some (Docx doc)"
    and v: "0 \<le> s" "s \<le> e" "e < int (length (paragraphs (body doc)))"
  shows "\<exists>es'. delete_paragraph_range fs doc_path s e
              = (Deleted (e - s + 1) s e, fs(doc_path \<mapsto> Docx (doc\<lparr>body := es'\<rparr>)))
           \<and> paragraphs es' = take (nat s) (paragraphs (body doc)) @ drop (nat e + 1) (paragraphs (body doc))
           \<and> tables es' = tables (body doc)"
proof -
  from remove_descending_range[OF v] obtain es' where
    a: "remove_descending (rev [s..e]) (body doc) = Inr es'"
    and b: "paragraphs es' = take (nat s) (paragraphs (body doc)) @ drop (nat e + 1) (paragraphs (body doc))"
    and c: "tables es' = tables (body doc)" by blast
  have "delete_paragraph_range fs doc_path s e
          = (Deleted (e - s + 1) s e, fs(doc_path \<mapsto> Docx (doc\<lparr>body := es'\<rparr>)))"
    using f v a by (simp add: delete_paragraph_range_def exists_def Document_def save_def)
  with b c show ?thesis by blast
qed

lemma delete_invalid:
  assumes f: "fs doc_path = Some (Docx doc)"
    and v: "\<not> (0 \<le> s \<and> s \<le> e \<and> e < int (length (paragraphs (body doc))))"
  shows "\<exists>m. delete_paragraph_range fs doc_path s e = (m, fs) \<and> delete_is_error m"
  using f v by (auto simp: delete_paragraph_range_def exists_def Document_def Let_def)

text \<open>
  Claim C7. On a stored document and a range with \<open>0 \<le> start_index \<le> end_index < \<close> the
  paragraph count, \<^verbatim>\<open>delete_paragraph_range\<close> saves a document with
  \<open>end_index - start_index + 1\<close> paragraphs fewer, in which every paragraph before
  \<open>start_index\<close> and every paragraph after \<open>end_index\<close> is the paragraph it was, runs,
  formatting and style (tables and styles are kept too). On any other bounds it returns
  an error message and the file store is the one before the call.
\<close>

theorem delete_paragraph_range_frame:
  assumes f: "fs doc_path = Some (Docx doc)"
  shows "(0 \<le> s \<and> s \<le> e \<and> e < int (length (paragraphs (body doc))) \<longrightarrow>
           (\<exists>doc'. delete_paragraph_range fs doc_path s e
                      = (Deleted (e - s + 1) s e, fs(doc_path \<mapsto> Docx doc'))
              \<and> int (length (paragraphs (body doc')))
                  = int (length (paragraphs (body doc))) - (e - s + 1)
              \<and> (\<forall>i. i < nat s \<longrightarrow> paragraphs (body doc') ! i = paragraphs (body doc) ! i)
              \<and> (\<forall>j. nat e < j \<and> j < length (paragraphs (body doc)) \<longrightarrow>
                    paragraphs (body doc') ! (j - nat (e - s + 1)) = paragraphs (body doc) ! j)
              \<and> tables (body doc') = tables (body doc) \<and> styles doc' = styles doc))
       \<and> (\<not> (0 \<le> s \<and> s \<le> e \<and> e < int (length (paragraphs (body doc)))) \<longrightarrow>
           (\<exists>m. delete_paragraph_range fs doc_path s e = (m, fs) \<and> delete_is_error m))"
proof (intro conjI impI)
  assume v: "0 \<le> s \<and> s \<le> e \<and> e < int (length (paragraphs (body doc)))"
  let ?ps = "paragraphs (body doc)"
  from delete_valid[of fs doc_path doc s e, OF f] v obtain es' where
    r: "delete_paragraph_range fs doc_path s e
          = (Deleted (e - s + 1) s e, fs(doc_path \<mapsto> Docx (doc\<lparr>body := es'\<rparr>)))"
    and p: "paragraphs es' = take (nat s) ?ps @ drop (nat e + 1) ?ps"
    and t: "tables es' = tables (body doc)" by blast
  have len: "int (length (paragraphs es')) = int (length ?ps) - (e - s + 1)"
    using v by (simp add: p min_def) linarith
  have before: "\<forall>i. i < nat s \<longrightarrow> paragraphs es' ! i = ?ps ! i"
  proof (intro allI impI)
    fix i assume i: "i < nat s"
    then have "i < length ?ps" using v by linarith
    with i show "paragraphs es' ! i = ?ps ! i" by (simp add: p nth_append)
  qed
  have after: "\<forall>j. nat e < j \<and> j < length ?ps \<longrightarrow> paragraphs es' ! (j - nat (e - s + 1)) = ?ps ! j"
  proof (intro allI impI)
    fix j assume j: "nat e < j \<and> j < length ?ps"
    have a: "\<not> j - nat (e - s + 1) < nat s" using v j by linarith
    have b: "nat e + 1 + (j - nat (e - s + 1) - nat s) = j" using v j by linarith
    have c: "min (length ?ps) (nat s) = nat s" using v by linarith
    show "paragraphs es' ! (j - nat (e - s + 1)) = ?ps ! j"
      using a b c j by (simp add: p nth_append)
  qed
  show "\<exists>doc'. delete_paragraph_range fs doc_path s e
                      = (Deleted (e - s + 1) s e, fs(doc_path \<mapsto> Docx doc'))
              \<and> int (length (paragraphs (body doc')))
                  = int (length (paragraphs (body doc))) - (e - s + 1)
              \<and> (\<forall>i. i < nat s \<longrightarrow> paragraphs (body doc') ! i = paragraphs (body doc) ! i)
              \<and> (\<forall>j. nat e < j \<and> j < length (paragraphs (body doc)) \<longrightarrow>
                    paragraphs (body doc') ! (j - nat (e - s + 1)) = paragraphs (body doc) ! j)
              \<and> tables (body doc') = tables (body doc) \<and> styles doc' = styles doc"
    using r len before after t by (intro exI[of _ "doc\<lparr>body := es'\<rparr>"]) simp
next
  assume "\<not> (0 \<le> s \<and> s \<le> e \<and> e < int (length (paragraphs (body doc))))"
  then show "\<exists>m. delete_paragraph_range fs doc_path s e = (m, fs) \<and> delete_is_error m"
    by (rule delete_invalid[of fs doc_path doc s e, OF f])
qed

theorem delete_paragraph_range_frame_witness:
  "(\<exists>doc'. delete_paragraph_range [''f'' \<mapsto> Docx abcde] ''f'' 1 3
            = (Deleted 3 1 3, [''f'' \<mapsto> Docx doc'])
      \<and> length (paragraphs (body doc')) = 2
      \<and> paragraphs (body doc') ! 0 = \<lparr>style = None, runs = [plain_run ''A'']\<rparr>
      \<and> paragraphs (body doc') ! 1 = \<lparr>style = None, runs = [plain_run ''E'']\<rparr>)
   \<and> (\<exists>m. delete_paragraph_range [''f'' \<mapsto> Docx abcde] ''f'' 3 5 = (m, [''f'' \<mapsto> Docx abcde])
          \<and> delete_is_error m)"
proof -
  have f: "[''f'' \<mapsto> Docx abcde] ''f'' = Some (Docx abcde)" by simp
  have n: "length (paragraphs (body abcde)) = 5" by (simp add: abcde_def plain_def)
  have p0: "paragraphs (body abcde) ! 0 = \<lparr>style = None, runs = [plain_run ''A'']\<rparr>" by (simp add: abcde_def plain_def)
  have p4: "paragraphs (body abcde) ! 4 = \<lparr>style = None, runs = [plain_run ''E'']\<rparr>" by (simp add: abcde_def plain_def)
  from delete_paragraph_range_frame[of "[''f'' \<mapsto> Docx abcde]" "''f''" abcde 1 3, OF f] n
  obtain doc' where a: "delete_paragraph_range [''f'' \<mapsto> Docx abcde] ''f'' 1 3
            = (Deleted 3 1 3, [''f'' \<mapsto> Docx doc'])"
    and b: "int (length (paragraphs (body doc'))) = 2"
    and c: "\<forall>i. i < nat 1 \<longrightarrow> paragraphs (body doc') ! i = paragraphs (body abcde) ! i"
    and d: "\<forall>j. nat 3 < j \<and> j < 5 \<longrightarrow>
                    paragraphs (body doc') ! (j - nat (3 - 1 + 1)) = paragraphs (body abcde) ! j"
    by auto
  from c have c': "paragraphs (body doc') ! 0 = \<lparr>style = None, runs = [plain_run ''A'']\<rparr>" using p0 by simp
  from d[rule_format, of 4] have d': "paragraphs (body doc') ! 1 = \<lparr>style = None, runs = [plain_run ''E'']\<rparr>"
    using p4 by simp
  from delete_paragraph_range_frame[of "[''f'' \<mapsto> Docx abcde]" "''f''" abcde 3 5, OF f] n
  have e: "\<exists>m. delete_paragraph_range [''f'' \<mapsto> Docx abcde] ''f'' 3 5 = (m, [''f'' \<mapsto> Docx abcde])
          \<and> delete_is_error m" by simp
  from a b c' d' e show ?thesis by auto
qed

subsection \<open>Replacing a paragraph range\<close>

lemma paragraphs_insert_after_para:
  "i < length (paragraphs es) \<Longrightarrow>
   paragraphs (insert_after_para i q es)
     = take (Suc i) (paragraphs es) @ q # drop (Suc i) (paragraphs es)"
proof (induction i q es rule: insert_after_para.induct)
qed simp_all

lemma tables_insert_after_para: "tables (insert_after_para i q es) = tables es"
proof (induction i q es rule: insert_after_para.induct)
qed simp_all

lemma insert_new_paragraphs_after:
  assumes "ts = [] \<or> sty \<in> set (styles doc)" "i < length (paragraphs es)"
  shows "\<exists>es'. insert_new_paragraphs doc sty (After i) ts es = Inr es'
           \<and> paragraphs es' = take (Suc i) (paragraphs es) @ map (new_paragraph sty) ts
                                 @ drop (Suc i) (paragraphs es)
           \<and> tables es' = tables es"
  using assms
proof (induction ts arbitrary: i es)
  case Nil
  then show ?case by simp
next
  case (Cons t ts)
  then have k: "sty \<in> set (styles doc)" by simp
  let ?es1 = "insert_after_para i (new_paragraph sty t) es"
  have p1: "paragraphs ?es1 = take (Suc i) (paragraphs es) @ new_paragraph sty t # drop (Suc i) (paragraphs es)"
    using Cons.prems(2) by (rule paragraphs_insert_after_para)
  have len: "Suc i < length (paragraphs ?es1)" using Cons.prems(2) by (simp add: p1)
  from Cons.IH[of "Suc i" ?es1] k len obtain es' where
    a: "insert_new_paragraphs doc sty (After (Suc i)) ts ?es1 = Inr es'"
    and b: "paragraphs es' = take (Suc (Suc i)) (paragraphs ?es1) @ map (new_paragraph sty) ts
                                 @ drop (Suc (Suc i)) (paragraphs ?es1)"
    and c: "tables es' = tables ?es1" by blast
  have t2: "take (Suc (Suc i)) (paragraphs ?es1) = take (Suc i) (paragraphs es) @ [new_paragraph sty t]"
    using Cons.prems(2) by (simp add: p1 min_def)
  have d2: "drop (Suc (Suc i)) (paragraphs ?es1) = drop (Suc i) (paragraphs es)"
    using Cons.prems(2) by (simp add: p1 min_def)
  have "insert_new_paragraphs doc sty (After i) (t # ts) es = Inr es'"
    using a k by (simp add: add_paragraph_def)
  then show ?case using b c t2 d2 by (simp add: tables_insert_after_para)
qed

lemma insert_new_paragraphs_start:
  assumes "ts = [] \<or> sty \<in> set (styles doc)"
  shows "\<exists>es'. insert_new_paragraphs doc sty Body_start ts es = Inr es'
           \<and> paragraphs es' = map (new_paragraph sty) ts @ paragraphs es
           \<and> tables es' = tables es"
proof (cases ts)
  case Nil
  then show ?thesis by simp
next
  case (Cons t ts')
  with assms have k: "sty \<in> set (styles doc)" by simp
  let ?es1 = "Para (new_paragraph sty t) # es"
  from insert_new_paragraphs_after[of ts' sty doc 0 ?es1] k obtain es' where
    a: "insert_new_paragraphs doc sty (After 0) ts' ?es1 = Inr es'"
    and b: "paragraphs es' = take (Suc 0) (paragraphs ?es1) @ map (new_paragraph sty) ts'
                                 @ drop (Suc 0) (paragraphs ?es1)"
    and c: "tables es' = tables ?es1" by auto
  have "insert_new_paragraphs doc sty Body_start ts es = Inr es'"
    using a k Cons by (simp add: add_paragraph_def)
  then show ?thesis using b c Cons by simp
qed

lemma range_style_valid:
  assumes "0 \<le> s" "s < int (length (paragraphs (body doc)))"
  shows "range_style doc s sty preserve_style = Inr (resolved_style doc s sty preserve_style)"
  using assms by (simp add: range_style_def resolved_style_def py_index_def)

lemma replace_range_body_valid:
  assumes v: "0 \<le> s" "s \<le> e" "e < int (length (paragraphs (body doc)))"
    and k: "ts = [] \<or> resolved_style doc s sty pr \<in> set (styles doc)"
  shows "\<exists>es'. replace_range_body doc s e ts sty pr = Inr es'
           \<and> paragraphs es' = take (nat s) (paragraphs (body doc))
                 @ map (new_paragraph (resolved_style doc s sty pr)) ts
                 @ drop (nat e + 1) (paragraphs (body doc))
           \<and> tables es' = tables (body doc)"
proof -
  let ?ps = "paragraphs (body doc)"
  let ?st = "resolved_style doc s sty pr"
  from remove_descending_range[OF v] obtain es1 where
    a: "remove_descending (rev [s..e]) (body doc) = Inr es1"
    and b: "paragraphs es1 = take (nat s) ?ps @ drop (nat e + 1) ?ps"
    and c: "tables es1 = tables (body doc)" by blast
  have rs: "range_style doc s sty pr = Inr ?st" using v by (intro range_style_valid) auto
  show ?thesis
  proof (cases "0 < s")
    case True
    have len: "nat (s - 1) < length (paragraphs es1)" using v True by (simp add: b)
    from insert_new_paragraphs_after[of ts ?st doc "nat (s - 1)" es1] k len obtain es' where
      d: "insert_new_paragraphs doc ?st (After (nat (s - 1))) ts es1 = Inr es'"
      and e: "paragraphs es' = take (Suc (nat (s - 1))) (paragraphs es1) @ map (new_paragraph ?st) ts
                                 @ drop (Suc (nat (s - 1))) (paragraphs es1)"
      and f: "tables es' = tables es1" by blast
    have s1: "Suc (nat (s - 1)) = nat s" using True by simp
    have t: "take (nat s) (paragraphs es1) = take (nat s) ?ps" using v by (simp add: b)
    have dr: "drop (nat s) (paragraphs es1) = drop (nat e + 1) ?ps" using v by (simp add: b)
    have "replace_range_body doc s e ts sty pr = Inr es'"
      using rs a d True by (simp add: replace_range_body_def)
    then show ?thesis using e f c s1 t dr by simp
  next
    case False
    with v have s0: "s = 0" by simp
    from insert_new_paragraphs_start[of ts ?st doc es1] k obtain es' where
      d: "insert_new_paragraphs doc ?st Body_start ts es1 = Inr es'"
      and e: "paragraphs es' = map (new_paragraph ?st) ts @ paragraphs es1"
      and f: "tables es' = tables es1" by blast
    have "replace_range_body doc s e ts sty pr = Inr es'"
      using rs a d s0 by (simp add: replace_range_body_def)
    then show ?thesis using e f c b s0 by simp
  qed
qed

text \<open>
  Claim C6. On a stored document, a range with \<open>0 \<le> start_index \<le> end_index < \<close> the
  paragraph count and a resolved style that the document defines (needed only when there is
  a new paragraph), \<^verbatim>\<open>replace_paragraph_range\<close> saves a document whose paragraphs are the
  paragraphs before \<open>start_index\<close>, then one new paragraph for each entry of
  \<^verbatim>\<open>new_paragraphs\<close> in input order, then the paragraphs after \<open>end_index\<close>. So the count is
  the old one minus \<open>end_index - start_index + 1\<close> plus the number of entries, the paragraph
  at \<open>start_index - 1\<close> is the one it was, and every new paragraph carries the style
  resolved by the precedence explicit style, \<^verbatim>\<open>preserve_style\<close>, Normal; an empty entry is
  a paragraph with no run.
\<close>

theorem replace_paragraph_range_result:
  assumes f: "fs doc_path = Some (Docx doc)"
    and v: "0 \<le> s" "s \<le> e" "e < int (length (paragraphs (body doc)))"
    and k: "ts = [] \<or> resolved_style doc s sty pr \<in> set (styles doc)"
  shows "\<exists>doc'. replace_paragraph_range fs doc_path s e ts sty pr
             = (Range_replaced (e - s + 1) s e (length ts), fs(doc_path \<mapsto> Docx doc'))
           \<and> paragraphs (body doc') = take (nat s) (paragraphs (body doc))
                 @ map (new_paragraph (resolved_style doc s sty pr)) ts
                 @ drop (nat e + 1) (paragraphs (body doc))
           \<and> int (length (paragraphs (body doc')))
               = int (length (paragraphs (body doc))) - (e - s + 1) + int (length ts)
           \<and> (0 < s \<longrightarrow> paragraphs (body doc') ! nat (s - 1) = paragraphs (body doc) ! nat (s - 1))
           \<and> (\<forall>i. i < length ts \<longrightarrow>
                 paragraphs (body doc') ! (nat s + i) = new_paragraph (resolved_style doc s sty pr) (ts ! i))
           \<and> tables (body doc') = tables (body doc) \<and> styles doc' = styles doc"
proof -
  let ?ps = "paragraphs (body doc)"
  let ?st = "resolved_style doc s sty pr"
  from replace_range_body_valid[OF v k] obtain es' where
    a: "replace_range_body doc s e ts sty pr = Inr es'"
    and b: "paragraphs es' = take (nat s) ?ps @ map (new_paragraph ?st) ts @ drop (nat e + 1) ?ps"
    and c: "tables es' = tables (body doc)" by blast
  have r: "replace_paragraph_range fs doc_path s e ts sty pr
             = (Range_replaced (e - s + 1) s e (length ts), fs(doc_path \<mapsto> Docx (doc\<lparr>body := es'\<rparr>)))"
    using f v a by (simp add: replace_paragraph_range_def exists_def Document_def save_def)
  have ls: "length (take (nat s) ?ps) = nat s" using v by simp
  have len: "int (length (paragraphs es')) = int (length ?ps) - (e - s + 1) + int (length ts)"
    using v by (simp add: b min_def)
  have before: "0 < s \<longrightarrow> paragraphs es' ! nat (s - 1) = ?ps ! nat (s - 1)"
    using v by (simp add: b nth_append)
  have new: "\<forall>i. i < length ts \<longrightarrow> paragraphs es' ! (nat s + i) = new_paragraph ?st (ts ! i)"
    using ls by (simp add: b nth_append)
  show ?thesis
    using r b len before new c by (intro exI[of _ "doc\<lparr>body := es'\<rparr>"]) simp
qed


theorem replace_paragraph_range_result_witness:
  "\<exists>doc'. replace_paragraph_range [''f'' \<mapsto> Docx abcde] ''f'' 1 3 [''X'', ''Y''] None False
             = (Range_replaced 3 1 3 2, [''f'' \<mapsto> Docx doc'])
         \<and> map para_text (paragraphs (body doc')) = [''A'', ''X'', ''Y'', ''E'']
         \<and> map style_name (paragraphs (body doc')) = [''Normal'', ''Normal'', ''Normal'', ''Normal'']"
proof -
  have f: "[''f'' \<mapsto> Docx abcde] ''f'' = Some (Docx abcde)" by simp
  have v: "(0::int) \<le> 1" "(1::int) \<le> 3" "3 < int (length (paragraphs (body abcde)))"
    by (simp_all add: abcde_def plain_def)
  have st: "resolved_style abcde 1 None False = ''Normal''"
    by (simp add: resolved_style_def truthy_def)
  have k: "[''X'', ''Y''] = [] \<or> resolved_style abcde 1 None False \<in> set (styles abcde)"
    unfolding st by (simp add: abcde_def)
  from replace_paragraph_range_result
         [of "[''f'' \<mapsto> Docx abcde]" "''f''" abcde 1 3 "[''X'', ''Y'']" None False, OF f v k]
  obtain doc' where
    a: "replace_paragraph_range [''f'' \<mapsto> Docx abcde] ''f'' 1 3 [''X'', ''Y''] None False
             = (Range_replaced (3 - 1 + 1) 1 3 (length [''X'', ''Y'']), [''f'' \<mapsto> Docx doc'])"
    and b: "paragraphs (body doc') = take (nat 1) (paragraphs (body abcde))
                 @ map (new_paragraph (resolved_style abcde 1 None False)) [''X'', ''Y'']
                 @ drop (nat 3 + 1) (paragraphs (body abcde))"
    by auto
  note b' = b[unfolded st]
  have c: "map para_text (paragraphs (body doc')) = [''A'', ''X'', ''Y'', ''E'']"
    by (simp add: b' abcde_def plain_def new_paragraph_def para_text_def plain_run_def)
  have d: "map style_name (paragraphs (body doc')) = [''Normal'', ''Normal'', ''Normal'', ''Normal'']"
    by (simp add: b' abcde_def plain_def new_paragraph_def style_name_def)
  from a c d show ?thesis by auto
qed

subsection \<open>The composite replacements on concrete documents\<close>

text \<open>
  Claim C1, at an input where it fails. The document has the paragraphs Intro and Body,
  the caller's matcher takes Intro for the start anchor, and the start anchor text is
  Chapter. \<^verbatim>\<open>replace_block_between_manual_anchors\<close> removes Body and saves; it then looks
  for the text Chapter in the reloaded document, finds nothing and returns the failure
  "not found after deletion (unexpected)". The stored document is the one without Body,
  not the one before the call.
\<close>

theorem anchors_failure_after_save:
  "fst (replace_block_between_manual_anchors [''f'' \<mapsto> Docx intro_doc] ''f'' ''Chapter''
          [''New''] None (Some intro_matcher) None)
     = Inr (Start_anchor_not_found_after_deletion ''Chapter'')
   \<and> snd (replace_block_between_manual_anchors [''f'' \<mapsto> Docx intro_doc] ''f'' ''Chapter''
          [''New''] None (Some intro_matcher) None) ''f''
     = Some (Docx (intro_doc\<lparr>body := [plain ''Intro'']\<rparr>))
   \<and> Some (Docx (intro_doc\<lparr>body := [plain ''Intro'']\<rparr>)) \<noteq> [''f'' \<mapsto> Docx intro_doc] ''f''"
  by code_simp

text \<open>
  Claim C2, at inputs where it fails. Neither composite has a handler around its body.
  With a style that the document does not define, and with a stored file that is not a
  Word package, \<^verbatim>\<open>replace_paragraph_block_below_header\<close> and
  \<^verbatim>\<open>replace_block_between_manual_anchors\<close> let the fault reach the caller.
\<close>

theorem composite_faults_reach_caller:
  "fst (replace_paragraph_block_below_header [''f'' \<mapsto> Docx section_doc] ''f'' ''Sec'' [''x'']
          (Some ''Fancy'')) = Inl KeyError
   \<and> fst (replace_paragraph_block_below_header [''f'' \<mapsto> Malformed] ''f'' ''Sec'' [''x''] None)
       = Inl PackageNotFoundError
   \<and> fst (replace_block_between_manual_anchors [''f'' \<mapsto> Docx intro_doc] ''f'' ''Intro''
          [''New''] None None (Some ''Fancy'')) = Inl KeyError
   \<and> fst (replace_block_between_manual_anchors [''f'' \<mapsto> Malformed] ''f'' ''Intro''
          [''New''] None None None) = Inl PackageNotFoundError"
  by code_simp

text \<open>
  Claim C3, at an input where it fails. The document is a heading Sec followed by the
  paragraphs a and b, and nothing after them: the header resolves to paragraph 0 and the
  block ends at 3, so the span holds two paragraphs. The loop compares its index with the
  number of paragraphs that are left, and after the removal of a it stops: b stays in the
  saved document and the reported count is 1.
\<close>

theorem header_block_partly_removed:
  "find_block_header (paragraphs (body section_doc)) ''Sec'' = Some 0
   \<and> block_end (paragraphs (body section_doc)) 0 = 3
   \<and> fst (replace_paragraph_block_below_header [''f'' \<mapsto> Docx section_doc] ''f'' ''Sec'' [] None)
       = Inr (Header_replaced ''Sec'' 0 ''Normal'' 1)
   \<and> snd (replace_paragraph_block_below_header [''f'' \<mapsto> Docx section_doc] ''f'' ''Sec'' [] None)
         ''f''
       = Some (Docx (section_doc\<lparr>body := [styled ''Heading 1'' ''Sec'', plain ''b'']\<rparr>))"
  by code_simp

subsection \<open>Header and heading resolution\<close>

text \<open>
  Claim C8. In the header query of \<^verbatim>\<open>replace_paragraph_block_below_header\<close> and in the
  heading query of \<^verbatim>\<open>get_section_paragraphs\<close> the result is the first paragraph, in
  document order, that passes the exact test; only if no paragraph passes the exact test
  it is the first paragraph that passes the contains test; and it is \<open>None\<close> exactly if no
  paragraph passes either test. A paragraph that passes the contains test has a heading
  style.
\<close>

theorem header_resolution_two_pass:
  "(find_block_header ps q = Some i \<longleftrightarrow>
      i < length ps \<and>
      (block_header_exact q (ps ! i) \<and> (\<forall>j<i. \<not> block_header_exact q (ps ! j))
       \<or> (\<forall>j<length ps. \<not> block_header_exact q (ps ! j))
          \<and> block_header_contains q (ps ! i) \<and> (\<forall>j<i. \<not> block_header_contains q (ps ! j))))
   \<and> (find_block_header ps q = None \<longleftrightarrow>
        (\<forall>j<length ps. \<not> block_header_exact q (ps ! j) \<and> \<not> block_header_contains q (ps ! j)))
   \<and> (block_header_contains q p \<longrightarrow> is_heading_paragraph p)
   \<and> (find_section_heading ps q = Some i \<longleftrightarrow>
      i < length ps \<and>
      (section_heading_exact q (ps ! i) \<and> (\<forall>j<i. \<not> section_heading_exact q (ps ! j))
       \<or> (\<forall>j<length ps. \<not> section_heading_exact q (ps ! j))
          \<and> section_heading_contains q (ps ! i)
          \<and> (\<forall>j<i. \<not> section_heading_contains q (ps ! j))))
   \<and> (find_section_heading ps q = None \<longleftrightarrow>
        (\<forall>j<length ps. \<not> section_heading_exact q (ps ! j)
                       \<and> \<not> section_heading_contains q (ps ! j)))
   \<and> (section_heading_contains q p \<longrightarrow> has_Heading_style p)"
  unfolding find_block_header_def find_section_heading_def
  using two_pass_Some[of "block_header_exact q" "block_header_contains q" ps i]
    two_pass_None[of "block_header_exact q" "block_header_contains q" ps]
    two_pass_Some[of "section_heading_exact q" "section_heading_contains q" ps i]
    two_pass_None[of "section_heading_exact q" "section_heading_contains q" ps]
  by (simp add: block_header_contains_def section_heading_contains_def)

theorem header_resolution_two_pass_witness:
  "find_block_header (paragraphs (body numbered_doc)) ''Section One'' = Some 1
   \<and> find_section_heading (paragraphs (body numbered_doc)) ''Section One'' = Some 1"
proof -
  let ?ps = "paragraphs (body numbered_doc)"
  let ?q = "''Section One''"
  have len: "length ?ps = 3" by code_simp
  have e: "\<not> block_header_exact ?q (?ps ! 0)" "\<not> block_header_exact ?q (?ps ! 1)"
    "\<not> block_header_exact ?q (?ps ! 2)" by code_simp+
  have c: "\<not> block_header_contains ?q (?ps ! 0)" "block_header_contains ?q (?ps ! 1)"
    by code_simp+
  have e': "\<not> section_heading_exact ?q (?ps ! 0)" "\<not> section_heading_exact ?q (?ps ! 1)"
    "\<not> section_heading_exact ?q (?ps ! 2)" by code_simp+
  have c': "\<not> section_heading_contains ?q (?ps ! 0)" "section_heading_contains ?q (?ps ! 1)"
    by code_simp+
  have all3: "\<And>P. P 0 \<Longrightarrow> P 1 \<Longrightarrow> P 2 \<Longrightarrow> \<forall>j<(3::nat). P j"
  proof (intro allI impI)
    fix P :: "nat \<Rightarrow> bool" and j :: nat
    assume "P 0" "P 1" "P 2" "j < 3"
    moreover from \<open>j < 3\<close> have "j = 0 \<or> j = 1 \<or> j = 2" by arith
    ultimately show "P j" by blast
  qed
  have all1: "\<And>P. P 0 \<Longrightarrow> \<forall>j<(1::nat). P j" by simp
  have ne: "\<forall>j<length ?ps. \<not> block_header_exact ?q (?ps ! j)"
    unfolding len using e by (intro all3)
  have nc: "\<forall>j<1. \<not> block_header_contains ?q (?ps ! j)" using c(1) by (intro all1)
  have ne': "\<forall>j<length ?ps. \<not> section_heading_exact ?q (?ps ! j)"
    unfolding len using e' by (intro all3)
  have nc': "\<forall>j<1. \<not> section_heading_contains ?q (?ps ! j)" using c'(1) by (intro all1)
  have l1: "1 < length ?ps" unfolding len by simp
  from header_resolution_two_pass[of ?ps ?q 1] ne nc c(2) ne' nc' c'(2) l1
  show ?thesis by blast
qed

subsection \<open>Whole-word search\<close>

lemma isspace_code: "isspace c \<Longrightarrow> (of_char c :: nat) \<le> 32"
  unfolding isspace_def by auto

lemma lower_char_cases:
  "lower_char c = c \<or> (97 \<le> (of_char (lower_char c) :: nat) \<and> (of_char (lower_char c) :: nat) \<le> 122)"
  unfolding lower_char_def Let_def by simp

lemma isspace_lower_char: "isspace (lower_char c) \<longleftrightarrow> isspace c"
proof (cases "lower_char c = c")
  case True
  then show ?thesis by simp
next
  case False
  with lower_char_cases[of c] have r: "97 \<le> (of_char (lower_char c) :: nat)" by blast
  then have a: "\<not> isspace (lower_char c)" using isspace_code[of "lower_char c"] by linarith
  from False have "65 \<le> (of_char c :: nat)" unfolding lower_char_def Let_def by (auto split: if_splits)
  then have "\<not> isspace c" using isspace_code[of c] by linarith
  with a show ?thesis by simp
qed

lemma lower_char_idem: "lower_char (lower_char c) = lower_char c"
proof (cases "lower_char c = c")
  case True
  then show ?thesis by simp
next
  case False
  with lower_char_cases[of c] have "97 \<le> (of_char (lower_char c) :: nat)" by blast
  then show ?thesis unfolding lower_char_def[of "lower_char c"] Let_def by simp
qed

lemma lower_idem: "lower (lower s) = lower s"
  by (simp add: lower_def lower_char_idem)

lemma split_lower: "split (lower s) = map lower (split s)"
proof (induction s rule: split.induct)
  case 1
  then show ?case by (simp add: lower_def)
next
  case (2 c cs)
  have tw: "takeWhile (\<lambda>x. \<not> isspace x) (map lower_char cs)
              = map lower_char (takeWhile (\<lambda>x. \<not> isspace x) cs)"
    by (simp add: takeWhile_map comp_def isspace_lower_char)
  have dw: "dropWhile (\<lambda>x. \<not> isspace x) (map lower_char cs)
              = map lower_char (dropWhile (\<lambda>x. \<not> isspace x) cs)"
    by (simp add: dropWhile_map comp_def isspace_lower_char)
  show ?case
  proof (cases "isspace c")
    case True
    with 2 show ?thesis by (simp add: lower_def isspace_lower_char)
  next
    case False
    with 2 have "split (lower (dropWhile (\<lambda>x. \<not> isspace x) cs))
                  = map lower (split (dropWhile (\<lambda>x. \<not> isspace x) cs))" by simp
    with False show ?thesis
      using tw dw by (simp add: lower_def isspace_lower_char)
  qed
qed

lemma enumerate_filter_fst:
  "map fst (filter (\<lambda>(i, w). C w) (enumerate 0 ws)) = filter (\<lambda>i. C (ws ! i)) [0..<length ws]"
proof (induction ws rule: rev_induct)
  case Nil
  then show ?case by simp
next
  case (snoc w ws)
  have "filter (\<lambda>i. C ((ws @ [w]) ! i)) [0..<length ws] = filter (\<lambda>i. C (ws ! i)) [0..<length ws]"
    by (rule filter_cong) (auto simp: nth_append)
  with snoc show ?case by (simp add: enumerate_append_eq)
qed

lemma whole_word_positions_words:
  "whole_word_positions mc (if mc then t else lower t) (if mc then q else lower q)
     = filter (\<lambda>k. word_equal mc (split t ! k) q) [0..<length (split t)]"
proof (cases mc)
  case True
  then show ?thesis
    using enumerate_filter_fst[of "\<lambda>w. w = q" "split t"]
    by (simp add: whole_word_positions_def word_equal_def)
next
  case False
  let ?C = "\<lambda>w. w = lower q \<or> lower w = lower (lower q)"
  have a: "whole_word_positions False (lower t) (lower q)
          = filter (\<lambda>i. ?C (map lower (split t) ! i)) [0..<length (split t)]"
    using enumerate_filter_fst[of ?C "map lower (split t)"]
    by (simp add: whole_word_positions_def split_lower)
  have "filter (\<lambda>i. ?C (map lower (split t) ! i)) [0..<length (split t)]
          = filter (\<lambda>k. lower (split t ! k) = lower q) [0..<length (split t)]"
    by (rule filter_cong) (auto simp: lower_idem)
  with a False show ?thesis by (simp add: word_equal_def)
qed

lemma collect_Some:
  "(\<And>x. x \<in> set xs \<Longrightarrow> f x = Some (g x)) \<Longrightarrow> collect f xs = Some (concat (map g xs))"
  by (induction xs) simp_all

lemma paragraph_occurrences_whole_word:
  "paragraph_occurrences q mc True inc lp = Some (word_occurrences q mc inc lp)"
  using whole_word_positions_words[of mc "para_text (snd lp)" q]
  by (cases mc) (simp_all add: paragraph_occurrences_def word_occurrences_def Let_def)

text \<open>
  Claim C10. On a stored document and a non-empty search text, \<^verbatim>\<open>find_text\<close> with
  \<^verbatim>\<open>whole_word=True\<close> returns, for the paragraphs of the body and then of the tables, one
  occurrence for each word of the paragraph's whitespace-split word list that equals the
  search text, up to lower-casing when \<^verbatim>\<open>match_case\<close> is false; its position is the index
  of the word in that list. A word with a punctuation mark attached is another word and
  is not reported.
\<close>

theorem find_text_whole_word:
  assumes f: "fs doc_path = Some (Docx doc)" and q: "q \<noteq> []"
  shows "find_text fs doc_path q mc True inc
           = Some (Found (concat (map (word_occurrences q mc inc)
                            (body_paragraphs doc @ table_paragraphs doc))))
       \<and> (\<forall>occ. occ \<in> set (concat (map (word_occurrences q mc inc)
                            (body_paragraphs doc @ table_paragraphs doc))) \<longleftrightarrow>
             (\<exists>loc p. (loc, p) \<in> set (body_paragraphs doc @ table_paragraphs doc)
                \<and> place occ = loc \<and> shown occ = show_paragraph inc p
                \<and> position occ < length (split (para_text p))
                \<and> word_equal mc (split (para_text p) ! position occ) q))"
proof
  have "collect (paragraph_occurrences q mc True inc) (body_paragraphs doc @ table_paragraphs doc)
          = Some (concat (map (word_occurrences q mc inc)
                            (body_paragraphs doc @ table_paragraphs doc)))"
    by (rule collect_Some) (rule paragraph_occurrences_whole_word)
  then show "find_text fs doc_path q mc True inc
           = Some (Found (concat (map (word_occurrences q mc inc)
                            (body_paragraphs doc @ table_paragraphs doc))))"
    using f q by (simp add: find_text_def exists_def Document_def)
next
  have m: "\<And>occ lp. occ \<in> set (word_occurrences q mc inc lp) \<longleftrightarrow>
            place occ = fst lp \<and> shown occ = show_paragraph inc (snd lp)
            \<and> position occ < length (split (para_text (snd lp)))
            \<and> word_equal mc (split (para_text (snd lp)) ! position occ) q"
  proof -
    fix occ :: occurrence and lp :: "location \<times> para"
    let ?ws = "split (para_text (snd lp))"
    show "occ \<in> set (word_occurrences q mc inc lp) \<longleftrightarrow>
            place occ = fst lp \<and> shown occ = show_paragraph inc (snd lp)
            \<and> position occ < length ?ws \<and> word_equal mc (?ws ! position occ) q"
    proof
      assume "occ \<in> set (word_occurrences q mc inc lp)"
      then show "place occ = fst lp \<and> shown occ = show_paragraph inc (snd lp)
            \<and> position occ < length ?ws \<and> word_equal mc (?ws ! position occ) q"
        by (auto simp: word_occurrences_def)
    next
      assume a: "place occ = fst lp \<and> shown occ = show_paragraph inc (snd lp)
            \<and> position occ < length ?ws \<and> word_equal mc (?ws ! position occ) q"
      then have "occ = \<lparr>place = fst lp, position = position occ,
                          shown = show_paragraph inc (snd lp)\<rparr>"
        by (cases occ) simp
      moreover have "position occ \<in> set (filter (\<lambda>k. word_equal mc (?ws ! k) q) [0..<length ?ws])"
        using a by simp
      ultimately show "occ \<in> set (word_occurrences q mc inc lp)"
        unfolding word_occurrences_def set_map by (rule image_eqI)
    qed
  qed
  show "\<forall>occ. occ \<in> set (concat (map (word_occurrences q mc inc)
                            (body_paragraphs doc @ table_paragraphs doc))) \<longleftrightarrow>
             (\<exists>loc p. (loc, p) \<in> set (body_paragraphs doc @ table_paragraphs doc)
                \<and> place occ = loc \<and> shown occ = show_paragraph inc p
                \<and> position occ < length (split (para_text p))
                \<and> word_equal mc (split (para_text p) ! position occ) q)"
  proof (intro allI)
    fix occ :: occurrence
    define every where "every = body_paragraphs doc @ table_paragraphs doc"
    have "occ \<in> set (concat (map (word_occurrences q mc inc) every))
            \<longleftrightarrow> (\<exists>lp \<in> set every. occ \<in> set (word_occurrences q mc inc lp))"
      by auto
    also have "\<dots> \<longleftrightarrow> (\<exists>loc p. (loc, p) \<in> set every
                \<and> place occ = loc \<and> shown occ = show_paragraph inc p
                \<and> position occ < length (split (para_text p))
                \<and> word_equal mc (split (para_text p) ! position occ) q)"
      unfolding m by force
    finally show "occ \<in> set (concat (map (word_occurrences q mc inc)
                            (body_paragraphs doc @ table_paragraphs doc))) \<longleftrightarrow>
             (\<exists>loc p. (loc, p) \<in> set (body_paragraphs doc @ table_paragraphs doc)
                \<and> place occ = loc \<and> shown occ = show_paragraph inc p
                \<and> position occ < length (split (para_text p))
                \<and> word_equal mc (split (para_text p) ! position occ) q)"
      unfolding every_def .
  qed
qed


theorem find_text_whole_word_witness:
  "find_text [''f'' \<mapsto> Docx hello_doc] ''f'' ''hello'' True True False
     = Some (Found [\<lparr>place = Paragraph_index 0, position = 2,
                     shown = Context ''say hello, hello world''\<rparr>])"
proof -
  have f: "[''f'' \<mapsto> Docx hello_doc] ''f'' = Some (Docx hello_doc)" by simp
  have q: "''hello'' \<noteq> []" by simp
  have e: "concat (map (word_occurrences ''hello'' True False)
                    (body_paragraphs hello_doc @ table_paragraphs hello_doc))
             = [\<lparr>place = Paragraph_index 0, position = 2,
                  shown = Context ''say hello, hello world''\<rparr>]"
    by code_simp
  from find_text_whole_word
         [of "[''f'' \<mapsto> Docx hello_doc]" "''f''" hello_doc "''hello''" True False, OF f q] e
  show ?thesis by simp
qed

subsection \<open>Replacing text across runs\<close>

lemma str_find_Some:
  "str_find s sub = Some k \<Longrightarrow> k \<le> length s \<and> prefix sub (drop k s)"
proof (induction s arbitrary: k)
  case Nil
  then show ?case by (simp split: if_splits)
next
  case (Cons c cs)
  show ?case
  proof (cases "prefix sub (c # cs)")
    case True
    with Cons.prems show ?thesis by simp
  next
    case False
    with Cons.prems obtain j where j: "str_find cs sub = Some j" "k = Suc j" by auto
    from Cons.IH[OF j(1)] j(2) show ?thesis by simp
  qed
qed

lemma str_in_sublist: "str_in sub s \<longleftrightarrow> sublist sub s"
proof (induction s)
  case Nil
  then show ?case by (simp add: str_in_def)
next
  case (Cons c cs)
  then show ?case by (auto simp: str_in_def sublist_Cons_right)
qed

lemma str_find_occurrence:
  assumes "str_find s sub = Some k"
  shows "k + length sub \<le> length s" and "s = take k s @ sub @ drop (k + length sub) s"
proof -
  from str_find_Some[OF assms] have k: "k \<le> length s" and p: "prefix sub (drop k s)" by simp_all
  from p obtain zs where zs: "drop k s = sub @ zs" by (auto simp: prefix_def)
  then have "length (drop k s) = length sub + length zs" by simp
  then show "k + length sub \<le> length s" using k by simp
  have "drop (k + length sub) s = drop (length sub) (drop k s)" by (simp add: add.commute)
  also have "\<dots> = zs" by (simp add: zs)
  finally have "sub @ drop (k + length sub) s = drop k s" by (simp add: zs)
  then show "s = take k s @ sub @ drop (k + length sub) s" by simp
qed

lemma char_map_from_nth:
  "k < length (runs_text rs) \<Longrightarrow>
   \<exists>ri ci. concat (map (\<lambda>(ri, r). map (\<lambda>ci. (ri, ci)) [0..<length (run_text r)])
                   (enumerate n rs)) ! k = (n + ri, ci)
       \<and> ri < length rs \<and> ci < length (run_text (rs ! ri))
       \<and> k = length (runs_text (take ri rs)) + ci"
proof (induction rs arbitrary: n k)
  case Nil
  then show ?case by (simp add: runs_text_def)
next
  case (Cons r rs)
  let ?f = "\<lambda>(ri, r). map (\<lambda>ci. (ri, ci)) [0..<length (run_text r)]"
  have unf: "concat (map ?f (enumerate n (r # rs)))
               = map (\<lambda>ci. (n, ci)) [0..<length (run_text r)] @ concat (map ?f (enumerate (Suc n) rs))"
    by simp
  show ?case
  proof (cases "k < length (run_text r)")
    case True
    then have "concat (map ?f (enumerate n (r # rs))) ! k = (n + 0, k)"
      unfolding unf by (simp add: nth_append)
    with True show ?thesis by (intro exI[of _ 0] exI[of _ k]) (simp add: runs_text_def)
  next
    case False
    let ?k = "k - length (run_text r)"
    from False Cons.prems have k': "?k < length (runs_text rs)" by (simp add: runs_text_def)
    from Cons.IH[OF k', of "Suc n"] obtain ri ci where
      a: "concat (map ?f (enumerate (Suc n) rs)) ! ?k = (Suc n + ri, ci)"
      and b: "ri < length rs" "ci < length (run_text (rs ! ri))"
      and c: "?k = length (runs_text (take ri rs)) + ci" by blast
    have "concat (map ?f (enumerate n (r # rs))) ! k = (n + Suc ri, ci)"
      unfolding unf using False a by (simp add: nth_append)
    moreover have "k = length (runs_text (take (Suc ri) (r # rs))) + ci"
      using c False by (simp add: runs_text_def)
    ultimately show ?thesis using b by (intro exI[of _ "Suc ri"] exI[of _ ci]) simp
  qed
qed

lemma char_map_nth:
  assumes "k < length (runs_text rs)"
  obtains ri ci where "char_map rs ! k = (ri, ci)" "ri < length rs"
    "ci < length (run_text (rs ! ri))" "k = length (runs_text (take ri rs)) + ci"
  using char_map_from_nth[OF assms, of 0] unfolding char_map_def by auto

lemma length_char_map: "length (char_map rs) = length (runs_text rs)"
proof -
  have "length (concat (map (\<lambda>(ri, r). map (\<lambda>ci. (ri, ci)) [0..<length (run_text r)])
                   (enumerate n rs))) = length (runs_text rs)" for n
    by (induction rs arbitrary: n) (simp_all add: runs_text_def)
  then show ?thesis by (simp add: char_map_def)
qed

lemma runs_text_append: "runs_text (xs @ ys) = runs_text xs @ runs_text ys"
  by (simp add: runs_text_def)

lemma runs_text_Cons: "runs_text (x # xs) = run_text x @ runs_text xs"
  by (simp add: runs_text_def)

lemma offset_mono:
  assumes "i < j" "j \<le> length rs"
  shows "length (runs_text (take i rs)) + length (run_text (rs ! i)) \<le> length (runs_text (take j rs))"
proof -
  from assms have "take j rs = take (Suc i) rs @ take (j - Suc i) (drop (Suc i) rs)"
    by (metis Suc_leI le_add_diff_inverse take_add)
  moreover have "take (Suc i) rs = take i rs @ [rs ! i]"
    using assms by (simp add: take_Suc_conv_app_nth)
  ultimately show ?thesis by (simp add: runs_text_append runs_text_Cons)
qed

lemma length_set_text [simp]: "length (set_text i t rs) = length rs"
  by (simp add: set_text_def)

lemma nth_set_text:
  "i < length rs \<Longrightarrow>
   set_text j t rs ! i = (if i = j then (rs ! i)\<lparr>run_text := t\<rparr> else rs ! i)"
  by (simp add: set_text_def)

lemma length_fold_clear [simp]: "length (fold (\<lambda>ri. set_text ri []) is rs) = length rs"
  by (induction "is" arbitrary: rs) simp_all

lemma nth_fold_clear:
  "i < length rs \<Longrightarrow>
   fold (\<lambda>ri. set_text ri []) is rs ! i
     = (if i \<in> set is then (rs ! i)\<lparr>run_text := []\<rparr> else rs ! i)"
proof (induction "is" arbitrary: rs)
  case Nil
  then show ?case by simp
next
  case (Cons x xs)
  then have "i < length (set_text x [] rs)" by simp
  from Cons.IH[OF this] Cons.prems show ?case by (simp add: nth_set_text)
qed

lemma split_at_two:
  assumes "i < j" "j < length l"
  shows "l = take i l @ l ! i # take (j - Suc i) (drop (Suc i) l) @ l ! j # drop (Suc j) l"
proof -
  from assms have a: "l = take i l @ l ! i # drop (Suc i) l" by (simp add: id_take_nth_drop)
  let ?d = "drop (Suc i) l"
  from assms have jd: "j - Suc i < length ?d" by simp
  then have "?d = take (j - Suc i) ?d @ ?d ! (j - Suc i) # drop (Suc (j - Suc i)) ?d"
    by (rule id_take_nth_drop)
  moreover have "?d ! (j - Suc i) = l ! j" using assms by simp
  moreover have "drop (Suc (j - Suc i)) ?d = drop (Suc j) l" using assms by simp
  ultimately have "?d = take (j - Suc i) ?d @ l ! j # drop (Suc j) l" by simp
  with a show ?thesis by metis
qed

lemma py_index_in_range:
  "0 \<le> i \<Longrightarrow> nat i < length xs \<Longrightarrow> py_index xs i = Inr (xs ! nat i)"
  by (simp add: py_index_def)


lemma occurrence_runs:
  assumes ne: "old \<noteq> []" and f: "str_find (runs_text rs) old = Some start"
  obtains sri sci eri eci where
    "py_index (char_map rs) (int start) = Inr (sri, sci)"
    "py_index (char_map rs) (int start + int (length old) - 1) = Inr (eri, eci)"
    "char_map rs ! start = (sri, sci)"
    "char_map rs ! (start + length old - 1) = (eri, eci)"
    "sri \<le> eri" "eri < length rs"
    "sci < length (run_text (rs ! sri))" "eci < length (run_text (rs ! eri))"
    "start = length (runs_text (take sri rs)) + sci"
    "start + length old = length (runs_text (take eri rs)) + eci + 1"
proof -
  from str_find_occurrence(1)[OF f] have le: "start + length old \<le> length (runs_text rs)" .
  from ne have pos: "0 < length old" by simp
  have s: "start < length (runs_text rs)" using le pos by linarith
  have e: "start + length old - 1 < length (runs_text rs)" using le pos by linarith
  from char_map_nth[OF s] obtain sri sci where
    a: "char_map rs ! start = (sri, sci)" "sri < length rs"
       "sci < length (run_text (rs ! sri))" "start = length (runs_text (take sri rs)) + sci"
    by blast
  from char_map_nth[OF e] obtain eri eci where
    b: "char_map rs ! (start + length old - 1) = (eri, eci)" "eri < length rs"
       "eci < length (run_text (rs ! eri))"
       "start + length old - 1 = length (runs_text (take eri rs)) + eci"
    by blast
  have i1: "py_index (char_map rs) (int start) = Inr (sri, sci)"
    using s a(1) by (simp add: py_index_def length_char_map)
  have n: "nat (int start + int (length old) - 1) = start + length old - 1" using pos by linarith
  have n0: "0 \<le> int start + int (length old) - 1" using pos by linarith
  have n1: "nat (int start + int (length old) - 1) < length (char_map rs)"
    using e n by (simp add: length_char_map)
  have i2: "py_index (char_map rs) (int start + int (length old) - 1) = Inr (eri, eci)"
    using py_index_in_range[OF n0 n1] b(1) n by simp
  have ord: "sri \<le> eri"
  proof (rule ccontr)
    assume "\<not> sri \<le> eri"
    then have "eri < sri" by simp
    from offset_mono[OF this] a(2)
    have "length (runs_text (take eri rs)) + length (run_text (rs ! eri))
            \<le> length (runs_text (take sri rs))" by simp
    with a(4) b(3,4) pos show False by linarith
  qed
  have fin: "start + length old = length (runs_text (take eri rs)) + eci + 1"
    using b(4) pos by linarith
  from that[OF i1 i2 a(1) b(1) ord b(2) a(3) b(3) a(4) fin] show thesis .
qed

lemma runs_text_split:
  "i < length rs \<Longrightarrow>
   runs_text rs = runs_text (take i rs) @ run_text (rs ! i) @ runs_text (drop (Suc i) rs)"
  using id_take_nth_drop[of i rs] runs_text_append runs_text_Cons by metis

lemma runs_text_set_text:
  "i < length rs \<Longrightarrow>
   runs_text (set_text i t rs) = runs_text (take i rs) @ t @ runs_text (drop (Suc i) rs)"
  by (simp add: set_text_def upd_conv_take_nth_drop runs_text_append runs_text_Cons)

lemma runs_text_all_empty: "\<forall>r \<in> set rs. run_text r = [] \<Longrightarrow> runs_text rs = []"
  by (simp add: runs_text_def)

lemma length_multi_run_result [simp]:
  "length (multi_run_result rs new_text sri sci eri eci) = length rs"
  by (simp add: multi_run_result_def Let_def)

lemma nth_multi_run_result:
  assumes "sri < eri" "eri < length rs" "i < length rs"
  shows "multi_run_result rs new_text sri sci eri eci ! i =
     (if i = sri then (rs ! sri)\<lparr>run_text := take sci (run_text (rs ! sri)) @ new_text\<rparr>
      else if sri < i \<and> i < eri then (rs ! i)\<lparr>run_text := []\<rparr>
      else if i = eri then (rs ! eri)\<lparr>run_text := drop (eci + 1) (run_text (rs ! eri))\<rparr>
      else rs ! i)"
proof -
  let ?rs1 = "set_text sri (take sci (run_text (rs ! sri)) @ new_text) rs"
  let ?rs2 = "fold (\<lambda>ri. set_text ri []) [Suc sri ..< eri] ?rs1"
  have n1: "\<And>k. k < length rs \<Longrightarrow> ?rs1 ! k =
              (if k = sri then (rs ! sri)\<lparr>run_text := take sci (run_text (rs ! sri)) @ new_text\<rparr>
               else rs ! k)"
    by (simp add: nth_set_text)
  have n2: "\<And>k. k < length rs \<Longrightarrow> ?rs2 ! k =
              (if sri < k \<and> k < eri then (?rs1 ! k)\<lparr>run_text := []\<rparr> else ?rs1 ! k)"
    by (simp add: nth_fold_clear)
  have e2: "?rs2 ! eri = rs ! eri" using assms by (simp add: n2 n1)
  have "multi_run_result rs new_text sri sci eri eci ! i =
          (if i = eri then (?rs2 ! eri)\<lparr>run_text := drop (eci + 1) (run_text (?rs2 ! eri))\<rparr>
           else ?rs2 ! i)"
    using assms by (simp add: multi_run_result_def Let_def nth_set_text)
  then show ?thesis using assms e2 by (simp add: n2 n1)
qed

lemma runs_text_multi_run_result:
  assumes "sri < eri" "eri < length rs"
  shows "runs_text (multi_run_result rs new_text sri sci eri eci)
     = runs_text (take sri rs) @ take sci (run_text (rs ! sri)) @ new_text
         @ drop (eci + 1) (run_text (rs ! eri)) @ runs_text (drop (Suc eri) rs)"
proof -
  let ?r = "multi_run_result rs new_text sri sci eri eci"
  have len: "length ?r = length rs" by simp
  have nth: "\<And>i. i < length rs \<Longrightarrow> ?r ! i =
     (if i = sri then (rs ! sri)\<lparr>run_text := take sci (run_text (rs ! sri)) @ new_text\<rparr>
      else if sri < i \<and> i < eri then (rs ! i)\<lparr>run_text := []\<rparr>
      else if i = eri then (rs ! eri)\<lparr>run_text := drop (eci + 1) (run_text (rs ! eri))\<rparr>
      else rs ! i)"
    using assms by (rule nth_multi_run_result)
  have t: "take sri ?r = take sri rs"
    using assms by (intro nth_take_lemma) (simp_all add: nth)
  have d: "drop (Suc eri) ?r = drop (Suc eri) rs"
    using assms by (intro nth_equalityI) (simp_all add: nth)
  have m: "\<forall>r \<in> set (take (eri - Suc sri) (drop (Suc sri) ?r)). run_text r = []"
  proof
    fix r assume "r \<in> set (take (eri - Suc sri) (drop (Suc sri) ?r))"
    then obtain k where k: "k < eri - Suc sri" "r = take (eri - Suc sri) (drop (Suc sri) ?r) ! k"
      using assms by (auto simp: in_set_conv_nth)
    then have "r = ?r ! (Suc sri + k)" using assms by simp
    moreover have "Suc sri + k < length rs" "sri < Suc sri + k" "Suc sri + k < eri"
      using k assms by simp_all
    ultimately show "run_text r = []" by (simp add: nth)
  qed
  have s: "?r ! sri = (rs ! sri)\<lparr>run_text := take sci (run_text (rs ! sri)) @ new_text\<rparr>"
    using assms by (simp add: nth)
  have e: "?r ! eri = (rs ! eri)\<lparr>run_text := drop (eci + 1) (run_text (rs ! eri))\<rparr>"
    using assms by (simp add: nth)
  have "?r = take sri ?r @ ?r ! sri # take (eri - Suc sri) (drop (Suc sri) ?r)
               @ ?r ! eri # drop (Suc eri) ?r"
    using assms by (intro split_at_two) simp_all
  then have "runs_text ?r = runs_text (take sri ?r) @ run_text (?r ! sri)
               @ runs_text (take (eri - Suc sri) (drop (Suc sri) ?r))
               @ run_text (?r ! eri) @ runs_text (drop (Suc eri) ?r)"
    using runs_text_append runs_text_Cons by (metis append_assoc)
  then show ?thesis by (simp add: t d s e runs_text_all_empty[OF m])
qed

lemma replace_first_unfold:
  assumes "str_find (runs_text rs) old = Some start" "eri < length rs"
    "start + length old \<le> length (runs_text rs)"
    "py_index (char_map rs) (int start) = Inr (sri, sci)"
    "py_index (char_map rs) (int start + int (length old) - 1) = Inr (eri, eci)"
  shows "replace_first old new rs =
     Inr (Replaced
       (if sri = eri
        then set_text sri (take sci (run_text (rs ! sri)) @ new
                             @ drop (eci + 1) (run_text (rs ! sri))) rs
        else multi_run_result rs new sri sci eri eci))"
proof -
  from assms(2) have "rs \<noteq> []" by auto
  with assms show ?thesis
    by (simp add: replace_first_def length_char_map multi_run_result_def Let_def)
qed

lemma replace_first_step:
  assumes ne: "old \<noteq> []" and f: "str_find (runs_text rs) old = Some start"
  shows "\<exists>rs'. replace_first old new rs = Inr (Replaced rs') \<and> length rs' = length rs
           \<and> runs_text rs' = take start (runs_text rs) @ new
                                @ drop (start + length old) (runs_text rs)"
proof -
  from occurrence_runs[OF ne f] obtain sri sci eri eci where
    i1: "py_index (char_map rs) (int start) = Inr (sri, sci)"
    and i2: "py_index (char_map rs) (int start + int (length old) - 1) = Inr (eri, eci)"
    and ord: "sri \<le> eri" and er: "eri < length rs"
    and sc: "sci < length (run_text (rs ! sri))" and ec: "eci < length (run_text (rs ! eri))"
    and st: "start = length (runs_text (take sri rs)) + sci"
    and en: "start + length old = length (runs_text (take eri rs)) + eci + 1"
    by metis
  from str_find_occurrence(1)[OF f] have le: "start + length old \<le> length (runs_text rs)" .
  note unf = replace_first_unfold[OF f er le i1 i2, of new]
  show ?thesis
  proof (cases "sri = eri")
    case True
    let ?t = "run_text (rs ! sri)"
    let ?pre = "runs_text (take sri rs)"
    let ?post = "runs_text (drop (Suc sri) rs)"
    let ?rs' = "set_text sri (take sci ?t @ new @ drop (eci + 1) ?t) rs"
    have sr: "sri < length rs" using True er by simp
    have whole: "runs_text rs = ?pre @ ?t @ ?post" using sr by (rule runs_text_split)
    have tk: "take start (runs_text rs) = ?pre @ take sci ?t"
      unfolding whole st using sc by simp
    have dr: "drop (start + length old) (runs_text rs) = drop (eci + 1) ?t @ ?post"
      unfolding whole en using ec True by simp
    have "runs_text ?rs' = ?pre @ (take sci ?t @ new @ drop (eci + 1) ?t) @ ?post"
      using sr by (rule runs_text_set_text)
    then have "runs_text ?rs' = take start (runs_text rs) @ new
                                @ drop (start + length old) (runs_text rs)"
      unfolding tk dr by simp
    moreover have "replace_first old new rs = Inr (Replaced ?rs')" using unf True by simp
    ultimately show ?thesis by (intro exI[of _ ?rs']) simp
  next
    case False
    with ord have lt: "sri < eri" by simp
    let ?pre = "runs_text (take sri rs)"
    let ?ts = "run_text (rs ! sri)"
    let ?mid = "runs_text (take (eri - Suc sri) (drop (Suc sri) rs))"
    let ?te = "run_text (rs ! eri)"
    let ?post = "runs_text (drop (Suc eri) rs)"
    let ?rs' = "multi_run_result rs new sri sci eri eci"
    have "rs = take sri rs @ rs ! sri # take (eri - Suc sri) (drop (Suc sri) rs)
                 @ rs ! eri # drop (Suc eri) rs"
      using lt er by (rule split_at_two)
    then have whole: "runs_text rs = ?pre @ ?ts @ ?mid @ ?te @ ?post"
      using runs_text_append runs_text_Cons by (metis append_assoc)
    have "take eri rs = take sri rs @ rs ! sri # take (eri - Suc sri) (drop (Suc sri) rs)"
    proof -
      have "take eri rs = take (Suc sri) rs @ take (eri - Suc sri) (drop (Suc sri) rs)"
        using lt by (metis Suc_leI le_add_diff_inverse take_add)
      moreover have "take (Suc sri) rs = take sri rs @ [rs ! sri]"
        using lt er by (simp add: take_Suc_conv_app_nth)
      ultimately show ?thesis by simp
    qed
    then have off: "runs_text (take eri rs) = ?pre @ ?ts @ ?mid"
      using runs_text_append runs_text_Cons by (metis append_assoc)
    have tk: "take start (runs_text rs) = ?pre @ take sci ?ts"
      unfolding whole st using sc by simp
    have en': "start + length old = length (?pre @ ?ts @ ?mid) + (eci + 1)"
      using en off by simp
    have "drop (start + length old) ((?pre @ ?ts @ ?mid) @ ?te @ ?post)
            = drop (eci + 1) (?te @ ?post)"
      unfolding en' by (simp only: drop_append length_append) simp
    then have dr: "drop (start + length old) (runs_text rs) = drop (eci + 1) ?te @ ?post"
      unfolding whole using ec by simp
    have "runs_text ?rs' = ?pre @ take sci ?ts @ new @ drop (eci + 1) ?te @ ?post"
      using lt er by (rule runs_text_multi_run_result)
    then have "runs_text ?rs' = take start (runs_text rs) @ new
                                @ drop (start + length old) (runs_text rs)"
      unfolding tk dr by simp
    moreover have "replace_first old new rs = Inr (Replaced ?rs')" using unf False by simp
    ultimately show ?thesis by (intro exI[of _ ?rs']) simp
  qed
qed

lemma para_text_runs_text: "para_text p = runs_text (runs p)"
  by (simp add: para_text_def runs_text_def)

text \<open>
  Claim C9. Let old be non-empty, let its first occurrence in the paragraph's text, the
  one a replacement step works on, start in one run and end in another. Then one
  replacement step makes the text of the paragraph the old text with that occurrence
  replaced by new. No run is added or removed: the run where the occurrence starts keeps
  its text before the match, followed by the whole replacement, and its formatting; every
  run between the two has the empty text; the run where the occurrence ends keeps its
  text after the match; all other runs are as they were.
\<close>

theorem cross_run_replacement:
  assumes ne: "old \<noteq> []"
    and f: "str_find (para_text p) old = Some start"
    and s: "char_map (runs p) ! start = (sri, sci)"
    and e: "char_map (runs p) ! (start + length old - 1) = (eri, eci)"
    and two: "sri \<noteq> eri"
  shows "\<exists>rs'. replace_first old new (runs p) = Inr (Replaced rs')
      \<and> para_text (p\<lparr>runs := rs'\<rparr>)
          = take start (para_text p) @ new @ drop (start + length old) (para_text p)
      \<and> length rs' = length (runs p) \<and> sri < eri \<and> eri < length (runs p)
      \<and> rs' ! sri = (runs p ! sri)\<lparr>run_text := take sci (run_text (runs p ! sri)) @ new\<rparr>
      \<and> (\<forall>i. sri < i \<and> i < eri \<longrightarrow> rs' ! i = (runs p ! i)\<lparr>run_text := []\<rparr>)
      \<and> rs' ! eri = (runs p ! eri)\<lparr>run_text := drop (eci + 1) (run_text (runs p ! eri))\<rparr>
      \<and> (\<forall>i. i < length (runs p) \<and> (i < sri \<or> eri < i) \<longrightarrow> rs' ! i = runs p ! i)"
proof -
  let ?rs = "runs p"
  from f have f': "str_find (runs_text ?rs) old = Some start" by (simp add: para_text_runs_text)
  from occurrence_runs[OF ne f'] obtain sri' sci' eri' eci' where
    i1: "py_index (char_map ?rs) (int start) = Inr (sri', sci')"
    and i2: "py_index (char_map ?rs) (int start + int (length old) - 1) = Inr (eri', eci')"
    and c1: "char_map ?rs ! start = (sri', sci')"
    and c2: "char_map ?rs ! (start + length old - 1) = (eri', eci')"
    and ord: "sri' \<le> eri'" and er: "eri' < length ?rs"
    by metis
  from c1 c2 s e have eq: "sri' = sri" "sci' = sci" "eri' = eri" "eci' = eci" by simp_all
  from ord two eq have lt: "sri < eri" by simp
  from er eq have er': "eri < length ?rs" by simp
  from str_find_occurrence(1)[OF f'] have le: "start + length old \<le> length (runs_text ?rs)" .
  let ?rs' = "multi_run_result ?rs new sri sci eri eci"
  have r: "replace_first old new ?rs = Inr (Replaced ?rs')"
    using replace_first_unfold[OF f' er' le i1[unfolded eq] i2[unfolded eq], of new] two by simp
  from replace_first_step[OF ne f', of new] r
  have t: "runs_text ?rs' = take start (runs_text ?rs) @ new
                              @ drop (start + length old) (runs_text ?rs)" by simp
  note nth = nth_multi_run_result[OF lt er', of _ new sci eci]
  have a: "?rs' ! sri = (?rs ! sri)\<lparr>run_text := take sci (run_text (?rs ! sri)) @ new\<rparr>"
    using lt er' by (simp add: nth)
  have b: "\<forall>i. sri < i \<and> i < eri \<longrightarrow> ?rs' ! i = (?rs ! i)\<lparr>run_text := []\<rparr>"
    using lt er' by (simp add: nth)
  have c: "?rs' ! eri = (?rs ! eri)\<lparr>run_text := drop (eci + 1) (run_text (?rs ! eri))\<rparr>"
    using lt er' by (simp add: nth)
  have d: "\<forall>i. i < length ?rs \<and> (i < sri \<or> eri < i) \<longrightarrow> ?rs' ! i = ?rs ! i"
    using lt er' by (auto simp: nth)
  show ?thesis
    using r t a b c d lt er' by (intro exI[of _ ?rs']) (simp add: para_text_runs_text)
qed

theorem cross_run_replacement_witness:
  "replace_first ''lo Wo'' ''X'' (runs hello_world)
     = Inr (Replaced [plain_run ''Hel'', (plain_run ''X'')\<lparr>bold := Some True\<rparr>, plain_run ''rld''])
   \<and> para_text (hello_world\<lparr>runs := [plain_run ''Hel'', (plain_run ''X'')\<lparr>bold := Some True\<rparr>,
                                     plain_run ''rld'']\<rparr>) = ''HelXrld''"
proof -
  have ne: "''lo Wo'' \<noteq> []" by simp
  have f: "str_find (para_text hello_world) ''lo Wo'' = Some 3" by code_simp
  have s: "char_map (runs hello_world) ! 3 = (1, 0)" by code_simp
  have e: "char_map (runs hello_world) ! (3 + length ''lo Wo'' - 1) = (2, 1)" by code_simp
  have two: "(1::nat) \<noteq> 2" by simp
  from cross_run_replacement[OF ne f s e two, of "''X''"] obtain rs' where
    r: "replace_first ''lo Wo'' ''X'' (runs hello_world) = Inr (Replaced rs')"
    and t: "para_text (hello_world\<lparr>runs := rs'\<rparr>)
          = take 3 (para_text hello_world) @ ''X'' @ drop (3 + length ''lo Wo'') (para_text hello_world)"
    and a: "rs' ! 1 = (runs hello_world ! 1)\<lparr>run_text := take 0 (run_text (runs hello_world ! 1)) @ ''X''\<rparr>"
    by blast
  have v: "replace_first ''lo Wo'' ''X'' (runs hello_world)
     = Inr (Replaced [plain_run ''Hel'', (plain_run ''X'')\<lparr>bold := Some True\<rparr>, plain_run ''rld''])"
    by code_simp
  have w: "take 3 (para_text hello_world) @ ''X'' @ drop (3 + length ''lo Wo'') (para_text hello_world)
            = ''HelXrld''" by code_simp
  from r v have "rs' = [plain_run ''Hel'', (plain_run ''X'')\<lparr>bold := Some True\<rparr>, plain_run ''rld'']"
    by simp
  with r t w show ?thesis by simp
qed


subsection \<open>The replacement loop\<close>

lemma str_in_find: "str_in old s \<Longrightarrow> \<exists>start. str_find s old = Some start"
  by (simp add: str_in_def)

lemma replace_loop_partial:
  assumes ret: "replace_loop old new rs c = Some r"
  shows "old \<noteq> [] \<longrightarrow>
         (\<exists>n rs'. r = Inr (c + n, rs') \<and> \<not> str_in old (runs_text rs')
                  \<and> replace_times n old new rs = Some rs')"
proof (rule replace_loop.raw_induct
    [where P = "\<lambda>old new rs c r. old \<noteq> [] \<longrightarrow>
         (\<exists>n rs'. r = Inr (c + n, rs') \<and> \<not> str_in old (runs_text rs')
                  \<and> replace_times n old new rs = Some rs')", OF _ ret])
  fix f old new rs c r
  assume IH: "\<And>old new rs c r. f old new rs c = Some r \<Longrightarrow> old \<noteq> [] \<longrightarrow>
         (\<exists>n rs'. r = Inr (c + n, rs') \<and> \<not> str_in old (runs_text rs')
                  \<and> replace_times n old new rs = Some rs')"
    and eq: "(if str_in old (runs_text rs)
      then (case replace_first old new rs of
              Inl e \<Rightarrow> Some (Inl e)
            | Inr Break \<Rightarrow> Some (Inr (c, rs))
            | Inr (Replaced rs') \<Rightarrow> f old new rs' (c + 1))
      else Some (Inr (c, rs))) = Some r"
  show "old \<noteq> [] \<longrightarrow>
         (\<exists>n rs'. r = Inr (c + n, rs') \<and> \<not> str_in old (runs_text rs')
                  \<and> replace_times n old new rs = Some rs')"
  proof
    assume ne: "old \<noteq> []"
    show "\<exists>n rs'. r = Inr (c + n, rs') \<and> \<not> str_in old (runs_text rs')
                  \<and> replace_times n old new rs = Some rs'"
    proof (cases "str_in old (runs_text rs)")
      case False
      with eq have "r = Inr (c + 0, rs)" by simp
      with False show ?thesis by (intro exI[of _ 0] exI[of _ rs]) simp
    next
      case True
      then obtain start where "str_find (runs_text rs) old = Some start"
        using str_in_find by blast
      from replace_first_step[OF ne this, of new] obtain rs1 where
        r1: "replace_first old new rs = Inr (Replaced rs1)" by blast
      with eq True have "f old new rs1 (c + 1) = Some r" by simp
      from IH[OF this] ne obtain n rs' where
        a: "r = Inr (c + 1 + n, rs')" "\<not> str_in old (runs_text rs')"
           "replace_times n old new rs1 = Some rs'" by blast
      have "replace_times (Suc n) old new rs = Some rs'" using r1 a(3) by simp
      with a(1,2) show ?thesis by (intro exI[of _ "Suc n"] exI[of _ rs']) simp
    qed
  qed
qed

lemma replace_loop_terminates:
  assumes ne: "old \<noteq> []" and sh: "length new < length old"
  shows "\<exists>r. replace_loop old new rs c = Some r"
proof (induction "length (runs_text rs)" arbitrary: rs c rule: less_induct)
  case less
  show ?case
  proof (cases "str_in old (runs_text rs)")
    case False
    then show ?thesis by (subst replace_loop.simps) simp
  next
    case True
    then obtain start where f: "str_find (runs_text rs) old = Some start"
      using str_in_find by blast
    from replace_first_step[OF ne f, of new] obtain rs1 where
      r1: "replace_first old new rs = Inr (Replaced rs1)"
      and t1: "runs_text rs1 = take start (runs_text rs) @ new
                                @ drop (start + length old) (runs_text rs)" by blast
    from str_find_occurrence(1)[OF f] have le: "start + length old \<le> length (runs_text rs)" .
    have "length (runs_text rs1) = length (runs_text rs) - length old + length new"
      unfolding t1 using le by simp
    with sh le have "length (runs_text rs1) < length (runs_text rs)" by linarith
    from less[OF this, of "c + 1"] obtain r where "replace_loop old new rs1 (c + 1) = Some r"
      by blast
    then have "replace_loop old new rs c = Some r"
      using True r1 by (subst replace_loop.simps) simp
    then show ?thesis by blast
  qed
qed

text \<open>
  What holds of \<^verbatim>\<open>_replace_in_paragraph\<close> for every paragraph and every non-empty old: a
  call that returns has raised no fault, returns the number of replacement steps that it
  has performed, and leaves a text with no occurrence of old (the style is untouched);
  and a call with a new text shorter than old does return.
\<close>

lemma replace_in_paragraph_result:
  assumes ne: "old \<noteq> []"
  shows "(\<forall>r. replace_in_paragraph p old new = Some r \<longrightarrow>
            (\<exists>n p'. r = Inr (n, p') \<and> \<not> str_in old (para_text p')
                \<and> replace_times n old new (runs p) = Some (runs p') \<and> style p' = style p))
       \<and> (length new < length old \<longrightarrow> (\<exists>r. replace_in_paragraph p old new = Some r))"
proof (intro conjI allI impI)
  fix r assume a: "replace_in_paragraph p old new = Some r"
  then obtain r0 where r0: "replace_loop old new (runs p) 0 = Some r0"
    by (auto simp: replace_in_paragraph_def split: option.splits)
  from replace_loop_partial[OF r0] ne obtain n rs' where
    b: "r0 = Inr (0 + n, rs')" "\<not> str_in old (runs_text rs')"
       "replace_times n old new (runs p) = Some rs'" by blast
  from a r0 b(1) have "r = Inr (n, p\<lparr>runs := rs'\<rparr>)" by (simp add: replace_in_paragraph_def)
  with b(2,3) show "\<exists>n p'. r = Inr (n, p') \<and> \<not> str_in old (para_text p')
                \<and> replace_times n old new (runs p) = Some (runs p') \<and> style p' = style p"
    by (intro exI[of _ n] exI[of _ "p\<lparr>runs := rs'\<rparr>"]) (simp add: para_text_runs_text)
next
  assume "length new < length old"
  from replace_loop_terminates[OF ne this, of "runs p" 0] obtain r0 where
    "replace_loop old new (runs p) 0 = Some r0" by blast
  then show "\<exists>r. replace_in_paragraph p old new = Some r"
    by (auto simp: replace_in_paragraph_def split: sum.splits prod.splits)
qed

lemma replace_in_paragraph_result_example:
  "\<exists>n p'. replace_in_paragraph hello_world ''lo Wo'' ''X'' = Some (Inr (n, p'))
      \<and> \<not> str_in ''lo Wo'' (para_text p')
      \<and> replace_times n ''lo Wo'' ''X'' (runs hello_world) = Some (runs p')"
proof -
  have ne: "''lo Wo'' \<noteq> []" by simp
  have sh: "length ''X'' < length ''lo Wo''" by simp
  from replace_in_paragraph_result[OF ne, of hello_world "''X''"] sh
  obtain r where r: "replace_in_paragraph hello_world ''lo Wo'' ''X'' = Some r" by blast
  with replace_in_paragraph_result[OF ne, of hello_world "''X''"]
  show ?thesis by blast
qed

lemma replace_loop_letter_a: "replace_loop ''a'' ''a'' [plain_run ''a''] c \<noteq> Some r"
proof
  assume ret: "replace_loop ''a'' ''a'' [plain_run ''a''] c = Some r"
  have st: "str_in ''a'' (runs_text [plain_run ''a''])" by code_simp
  have rf: "replace_first ''a'' ''a'' [plain_run ''a''] = Inr (Replaced [plain_run ''a''])"
    by code_simp
  have "\<not> (''a'' = ''a'' \<and> ''a'' = ''a'' \<and> [plain_run ''a''] = [plain_run ''a''])"
  proof (rule replace_loop.raw_induct
      [where P = "\<lambda>old new rs c r. \<not> (old = ''a'' \<and> new = ''a'' \<and> rs = [plain_run ''a''])",
       OF _ ret])
    fix f old new rs c r
    assume IH: "\<And>old new rs c r. f old new rs c = Some r \<Longrightarrow>
                  \<not> (old = ''a'' \<and> new = ''a'' \<and> rs = [plain_run ''a''])"
      and eq: "(if str_in old (runs_text rs)
        then (case replace_first old new rs of
                Inl e \<Rightarrow> Some (Inl e)
              | Inr Break \<Rightarrow> Some (Inr (c, rs))
              | Inr (Replaced rs') \<Rightarrow> f old new rs' (c + 1))
        else Some (Inr (c, rs))) = Some r"
    show "\<not> (old = ''a'' \<and> new = ''a'' \<and> rs = [plain_run ''a''])"
    proof
      assume h: "old = ''a'' \<and> new = ''a'' \<and> rs = [plain_run ''a'']"
      with eq st rf have "f ''a'' ''a'' [plain_run ''a''] (c + 1) = Some r" by simp
      from IH[OF this] show False by simp
    qed
  qed
  then show False by simp
qed

text \<open>
  Claim C5, at an input where it fails. The paragraph has the single run a, and old and
  new are both the letter a. The text has an occurrence of old; every pass of the loop
  replaces the first a by a and finds the loop condition true again, so the call never
  returns: there is no count, and the occurrence is still in the text.
\<close>

theorem replace_in_paragraph_never_returns:
  "str_in ''a'' (para_text letter_a) \<and> replace_in_paragraph letter_a ''a'' ''a'' = None"
proof -
  have a: "str_in ''a'' (para_text letter_a)" by code_simp
  have "replace_loop ''a'' ''a'' (runs letter_a) 0 = None"
    using replace_loop_letter_a[of 0] by (cases "replace_loop ''a'' ''a'' (runs letter_a) 0")
      (simp_all add: letter_a_def)
  then have "replace_in_paragraph letter_a ''a'' ''a'' = None"
    by (simp add: replace_in_paragraph_def)
  with a show ?thesis by simp
qed


subsection \<open>Table-of-contents paragraphs\<close>

lemma replace_each_rel:
  assumes "replace_each f xs = Some (Inr (c, xs'))"
    and "\<And>x c x'. x \<in> set xs \<Longrightarrow> f x = Some (Inr (c, x')) \<Longrightarrow> R x x'"
  shows "list_all2 R xs xs'"
  using assms
proof (induction xs arbitrary: c xs')
  case Nil
  then show ?case by simp
next
  case (Cons x xs)
  from Cons.prems(1) obtain c1 x1 where fx: "f x = Some (Inr (c1, x1))"
    by (auto split: option.splits sum.splits)
  with Cons.prems(1) obtain c2 xs2 where rest: "replace_each f xs = Some (Inr (c2, xs2))"
    and res: "xs' = x1 # xs2"
    by (auto split: option.splits sum.splits)
  have "R x x1" using Cons.prems(2)[OF _ fx] by simp
  moreover have "list_all2 R xs xs2"
    using Cons.IH[OF rest] Cons.prems(2) by simp
  ultimately show ?case using res by simp
qed

lemma replace_in_para_keeps_toc:
  "replace_in_para old new p = Some (Inr (c, p')) \<Longrightarrow> keeps_toc p p'"
  by (auto simp: replace_in_para_def keeps_toc_def split: if_splits)

lemma keeps_toc_refl: "keeps_toc p p"
  by (simp add: keeps_toc_def)

lemma list_all2_keeps_toc_refl: "list_all2 (list_all2 (list_all2 keeps_toc)) t t"
  by (simp add: list_all2_refl keeps_toc_refl)

lemma body_pass_step:
  "replace_in_body_paragraph old new el = Some (Inr (c, el')) \<Longrightarrow> body_pass el el'"
  by (cases el)
     (auto simp: replace_in_body_paragraph_def replace_in_para_keeps_toc
           split: option.splits sum.splits)

lemma table_pass_step:
  assumes "replace_in_table old new el = Some (Inr (c, el'))"
  shows "table_pass el el'"
proof (cases el)
  case (Para p)
  with assms show ?thesis by (auto simp: replace_in_table_def)
next
  case (Tbl t)
  with assms obtain t' where
    r: "replace_each (replace_each (replace_each (replace_in_para old new))) t = Some (Inr (c, t'))"
    and e: "el' = Tbl t'"
    by (auto simp: replace_in_table_def split: option.splits sum.splits)
  have "list_all2 (list_all2 (list_all2 keeps_toc)) t t'"
  proof (rule replace_each_rel[OF r])
    fix row c1 row'
    assume "replace_each (replace_each (replace_in_para old new)) row = Some (Inr (c1, row'))"
    then show "list_all2 (list_all2 keeps_toc) row row'"
    proof (rule replace_each_rel)
      fix cell c2 cell'
      assume "replace_each (replace_in_para old new) cell = Some (Inr (c2, cell'))"
      then show "list_all2 keeps_toc cell cell'"
        by (rule replace_each_rel) (rule replace_in_para_keeps_toc)
    qed
  qed
  with Tbl e show ?thesis by simp
qed

lemma passes_compose: "body_pass a b \<Longrightarrow> table_pass b c \<Longrightarrow> keeps_toc_element a c"
  by (cases a; cases b; cases c) simp_all

lemma list_all2_compose:
  assumes "list_all2 P xs ys" "list_all2 Q ys zs" "\<And>x y z. P x y \<Longrightarrow> Q y z \<Longrightarrow> R x z"
  shows "list_all2 R xs zs"
  using assms
proof (induction xs ys arbitrary: zs rule: list_all2_induct)
  case Nil
  then show ?case by simp
next
  case (Cons x xs y ys)
  then show ?case by (cases zs) auto
qed

lemma find_block_header_not_toc:
  assumes "find_block_header ps q = Some i"
  shows "i < length ps \<and> \<not> is_toc_paragraph (ps ! i)"
proof -
  from assms have "i < length ps \<and>
      (block_header_exact q (ps ! i) \<or> block_header_contains q (ps ! i))"
    unfolding find_block_header_def two_pass_Some by blast
  then show ?thesis by (auto simp: block_header_exact_def block_header_contains_def)
qed

text \<open>
  Claim C4, as amended. \<^verbatim>\<open>find_and_replace_text\<close>, when it returns a count, has left every
  paragraph whose style name starts with TOC as it was, in the body and in the cells of
  tables, whatever its text; and the header that \<^verbatim>\<open>replace_paragraph_block_below_header\<close>
  resolves, after which it inserts, is never a table-of-contents paragraph.
\<close>

theorem toc_paragraphs_kept:
  "(find_and_replace_text doc old new = Some (Inr (c, doc')) \<longrightarrow>
      list_all2 keeps_toc_element (body doc) (body doc'))
   \<and> (find_block_header ps q = Some i \<longrightarrow> i < length ps \<and> \<not> is_toc_paragraph (ps ! i))"
proof (rule conjI; rule impI)
  assume a: "find_and_replace_text doc old new = Some (Inr (c, doc'))"
  then obtain c1 es1 c2 es2 where
    p1: "replace_each (replace_in_body_paragraph old new) (body doc) = Some (Inr (c1, es1))"
    and p2: "replace_each (replace_in_table old new) es1 = Some (Inr (c2, es2))"
    and d: "doc' = doc\<lparr>body := es2\<rparr>"
    by (auto simp: find_and_replace_text_def split: option.splits sum.splits)
  have "list_all2 body_pass (body doc) es1"
    by (rule replace_each_rel[OF p1]) (rule body_pass_step)
  moreover have "list_all2 table_pass es1 es2"
    by (rule replace_each_rel[OF p2]) (rule table_pass_step)
  ultimately have "list_all2 keeps_toc_element (body doc) es2"
    by (rule list_all2_compose) (rule passes_compose)
  with d show "list_all2 keeps_toc_element (body doc) (body doc')" by simp
next
  assume "find_block_header ps q = Some i"
  then show "i < length ps \<and> \<not> is_toc_paragraph (ps ! i)" by (rule find_block_header_not_toc)
qed

theorem toc_paragraphs_kept_witness:
  "find_and_replace_text toc_doc ''Hello'' ''Bye''
     = Some (Inr (1, toc_doc\<lparr>body := [styled ''TOC 1'' ''Hello'', styled ''Heading 1'' ''Bye'']\<rparr>))
   \<and> list_all2 keeps_toc_element (body toc_doc)
        [styled ''TOC 1'' ''Hello'', styled ''Heading 1'' ''Bye'']
   \<and> find_block_header (paragraphs (body toc_doc)) ''Hello'' = Some 1
   \<and> \<not> is_toc_paragraph (paragraphs (body toc_doc) ! 1)"
proof -
  have a: "find_and_replace_text toc_doc ''Hello'' ''Bye''
     = Some (Inr (1, toc_doc\<lparr>body := [styled ''TOC 1'' ''Hello'', styled ''Heading 1'' ''Bye'']\<rparr>))"
    by code_simp
  have b: "find_block_header (paragraphs (body toc_doc)) ''Hello'' = Some 1" by code_simp
  from toc_paragraphs_kept
         [of toc_doc "''Hello''" "''Bye''" 1
             "toc_doc\<lparr>body := [styled ''TOC 1'' ''Hello'', styled ''Heading 1'' ''Bye'']\<rparr>"
             "paragraphs (body toc_doc)" "''Hello''" 1] a b
  show ?thesis by simp
qed

text \<open>
  Claim C4 as stated fails: \<^verbatim>\<open>find_text\<close> looks at no style. On a document with a
  table-of-contents entry Hello and a heading Hello it reports both paragraphs.
\<close>

theorem find_text_reports_toc:
  "is_toc_paragraph (paragraphs (body toc_doc) ! 0)
   \<and> find_text [''f'' \<mapsto> Docx toc_doc] ''f'' ''Hello'' True False False
       = Some (Found [\<lparr>place = Paragraph_index 0, position = 0, shown = Context ''Hello''\<rparr>,
                      \<lparr>place = Paragraph_index 1, position = 0, shown = Context ''Hello''\<rparr>])"
  by code_simp


end
